theory Spec2Isabelle
  imports Main "HOL-Library.Word" "HOL-Library.Sublist"
begin

unbundle bit_operations_syntax

section \<open>Go values\<close>

text \<open>
  A Go string is a sequence of bytes, here a \<open>string\<close> (a \<open>char list\<close>, one \<open>char\<close> per
  byte). A Go slice is either nil or holds elements: \<open>None\<close> is the nil slice, \<open>Some []\<close>
  an empty slice that is not nil. A pointer is modelled the same way (\<open>None\<close> is the nil
  pointer). A run-time panic is a value of \<open>error\<close>, as is a returned Go error.
\<close>

type_synonym byte = "8 word"

datatype error =
    ErrInvalidIPSpecification string
  | IndexOutOfRange int nat

definition len :: "'a list option \<Rightarrow> nat" where
  "len s = (case s of None \<Rightarrow> 0 | Some xs \<Rightarrow> length xs)"

text \<open>\<open>xs[i]\<close> with Go's bounds check: the index is a Go \<open>int\<close>, and an index outside
  \<open>0 \<le> i < len(xs)\<close> panics (\<open>index out of range [i] with length n\<close>).\<close>

definition index :: "'a list \<Rightarrow> int \<Rightarrow> error + 'a" where
  "index xs i =
     (if 0 \<le> i \<and> i < int (length xs) then Inr (xs ! nat i)
      else Inl (IndexOutOfRange i (length xs)))"

section \<open>Package strings\<close>

text \<open>
  \<open>strings.Split(s, sep)\<close> for a one-byte separator: cut at each occurrence of the
  separator, keep every piece (also the empty ones); the result is never empty.
\<close>

function Split :: "string \<Rightarrow> char \<Rightarrow> string list" where
  "Split s sep =
     (let a = takeWhile (\<lambda>c. c \<noteq> sep) s; rest = dropWhile (\<lambda>c. c \<noteq> sep) s
      in if rest = [] then [a] else a # Split (tl rest) sep)"
  by pat_completeness auto
termination
proof (relation "measure (\<lambda>(s, sep). length s)")
  show "wf (measure (\<lambda>(s, sep). length s))" by simp
next
  fix s :: string and sep :: char and x xa
  assume "xa = dropWhile (\<lambda>c. c \<noteq> sep) s" and "xa \<noteq> []"
  then have "length (tl xa) < length xa" and "length xa \<le> length s"
    by (simp_all add: length_dropWhile_le)
  then show "((tl xa, sep), (s, sep)) \<in> measure (\<lambda>(s, sep). length s)"
    by simp
qed

declare Split.simps [simp del]

text \<open>
  \<open>strings.TrimSpace\<close> removes the leading and the trailing white space, as Unicode
  defines it (\<open>unicode.IsSpace\<close>), from a string in UTF-8. \<open>space_runes\<close> lists the UTF-8
  encodings of the white-space code points: U+0009 to U+000D, U+0020, U+0085, U+00A0,
  U+1680, U+2000 to U+200A, U+2028, U+2029, U+202F, U+205F and U+3000. A byte sequence
  decodes to such a code point exactly when it is one of these encodings, so the
  leading trim removes such prefixes and the trailing trim such suffixes.
\<close>

definition asciiSpace :: "string list" where
  "asciiSpace = [[CHR 0x09], [CHR 0x0A], [CHR 0x0B], [CHR 0x0C], [CHR 0x0D], [CHR 0x20]]"

definition space_runes :: "string list" where
  "space_runes = asciiSpace @
     [[CHR 0xC2, CHR 0x85], [CHR 0xC2, CHR 0xA0],
      [CHR 0xE1, CHR 0x9A, CHR 0x80],
      [CHR 0xE2, CHR 0x80, CHR 0x80], [CHR 0xE2, CHR 0x80, CHR 0x81],
      [CHR 0xE2, CHR 0x80, CHR 0x82], [CHR 0xE2, CHR 0x80, CHR 0x83],
      [CHR 0xE2, CHR 0x80, CHR 0x84], [CHR 0xE2, CHR 0x80, CHR 0x85],
      [CHR 0xE2, CHR 0x80, CHR 0x86], [CHR 0xE2, CHR 0x80, CHR 0x87],
      [CHR 0xE2, CHR 0x80, CHR 0x88], [CHR 0xE2, CHR 0x80, CHR 0x89],
      [CHR 0xE2, CHR 0x80, CHR 0x8A],
      [CHR 0xE2, CHR 0x80, CHR 0xA8], [CHR 0xE2, CHR 0x80, CHR 0xA9],
      [CHR 0xE2, CHR 0x80, CHR 0xAF],
      [CHR 0xE2, CHR 0x81, CHR 0x9F],
      [CHR 0xE3, CHR 0x80, CHR 0x80]]"

definition leading_space :: "string \<Rightarrow> string option" where
  "leading_space s = List.find (\<lambda>w. prefix w s) space_runes"

definition trailing_space :: "string \<Rightarrow> string option" where
  "trailing_space s = List.find (\<lambda>w. suffix w s) space_runes"

lemma space_runes_nonempty: "w \<in> set space_runes \<Longrightarrow> 0 < length w"
  by (auto simp: space_runes_def asciiSpace_def)

lemma leading_space_Some:
  "leading_space s = Some w \<Longrightarrow> w \<in> set space_runes \<and> prefix w s"
  by (auto simp: leading_space_def find_Some_iff)

lemma trailing_space_Some:
  "trailing_space s = Some w \<Longrightarrow> w \<in> set space_runes \<and> suffix w s"
  by (auto simp: trailing_space_def find_Some_iff)

function TrimLeft :: "string \<Rightarrow> string" where
  "TrimLeft s =
     (case leading_space s of None \<Rightarrow> s | Some w \<Rightarrow> TrimLeft (drop (length w) s))"
  by pat_completeness auto
termination
proof (relation "measure length")
  show "wf (measure length)" by simp
next
  fix s w :: string
  assume "leading_space s = Some w"
  then have "w \<in> set space_runes" and "prefix w s"
    by (simp_all add: leading_space_Some)
  then have "0 < length w" and "length w \<le> length s"
    using space_runes_nonempty [of w] prefix_length_le [of w s] by blast+
  then show "(drop (length w) s, s) \<in> measure length" by (cases w) auto
qed

function TrimRight :: "string \<Rightarrow> string" where
  "TrimRight s =
     (case trailing_space s of None \<Rightarrow> s
      | Some w \<Rightarrow> TrimRight (take (length s - length w) s))"
  by pat_completeness auto
termination
proof (relation "measure length")
  show "wf (measure length)" by simp
next
  fix s w :: string
  assume "trailing_space s = Some w"
  then have "w \<in> set space_runes" and "suffix w s"
    by (simp_all add: trailing_space_Some)
  then have "0 < length w" and "length w \<le> length s"
    using space_runes_nonempty [of w] suffix_length_le [of w s] by blast+
  then show "(take (length s - length w) s, s) \<in> measure length" by (cases w) auto
qed

declare TrimLeft.simps [simp del] TrimRight.simps [simp del]

definition TrimSpace :: "string \<Rightarrow> string" where
  "TrimSpace s = TrimRight (TrimLeft s)"

text \<open>\<open>strings.Cut(s, sep)\<close> for a one-byte separator: the text before and after the
  first occurrence of the separator, or \<open>None\<close> when there is none.\<close>

definition Cut :: "string \<Rightarrow> char \<Rightarrow> (string \<times> string) option" where
  "Cut s sep =
     (if sep \<in> set s
      then Some (takeWhile (\<lambda>c. c \<noteq> sep) s, tl (dropWhile (\<lambda>c. c \<noteq> sep) s))
      else None)"

section \<open>Package net\<close>

text \<open>
  The Go standard library is not part of the repository. The functions of package
  \<open>net\<close> (and of \<open>net/netip\<close>, which parses for it) that the repository calls are
  written here after the library's source (Go 1.22), loop by loop, so that the
  repository's functions can be evaluated on concrete strings.
\<close>

type_synonym IP = "byte list option"
type_synonym IPMask = "byte list option"

record IPNet =
  IP :: IP
  Mask :: IPMask

definition IPv4len :: nat where "IPv4len = 4"
definition IPv6len :: nat where "IPv6len = 16"

definition v4InV6Prefix :: "byte list" where
  "v4InV6Prefix = [0, 0, 0, 0, 0, 0, 0, 0, 0, 0, 0xff, 0xff]"

subsection \<open>Parsing an address (netip.ParseAddr)\<close>

text \<open>A parsed address is a 4-byte address, or a 16-byte address with its zone.\<close>

datatype Addr = Addr4 "byte list" | Addr6 "byte list" string

fun As16 :: "Addr \<Rightarrow> byte list" where
  "As16 (Addr4 bs) = v4InV6Prefix @ bs"
| "As16 (Addr6 bs zone) = bs"

fun BitLen :: "Addr \<Rightarrow> nat" where
  "BitLen (Addr4 bs) = 32"
| "BitLen (Addr6 bs zone) = 128"

fun Zone :: "Addr \<Rightarrow> string" where
  "Zone (Addr4 bs) = []"
| "Zone (Addr6 bs zone) = zone"

definition is_digit :: "char \<Rightarrow> bool" where
  "is_digit c = ((of_char (CHR ''0'') :: nat) \<le> of_char c \<and> (of_char c :: nat) \<le> of_char (CHR ''9''))"

definition digit_val :: "char \<Rightarrow> nat" where
  "digit_val c = of_char c - of_char (CHR ''0'')"

definition is_hex :: "char \<Rightarrow> bool" where
  "is_hex c =
     (is_digit c
      \<or> ((of_char (CHR ''a'') :: nat) \<le> of_char c \<and> (of_char c :: nat) \<le> of_char (CHR ''f''))
      \<or> ((of_char (CHR ''A'') :: nat) \<le> of_char c \<and> (of_char c :: nat) \<le> of_char (CHR ''F'')))"

definition hex_val :: "char \<Rightarrow> nat" where
  "hex_val c =
     (if is_digit c then digit_val c
      else if (of_char (CHR ''a'') :: nat) \<le> of_char c \<and> (of_char c :: nat) \<le> of_char (CHR ''f'')
      then of_char c - of_char (CHR ''a'') + 10
      else of_char c - of_char (CHR ''A'') + 10)"

text \<open>
  \<open>parseIPv4Fields\<close>: four decimal fields separated by dots, each at most 255 and
  without a leading zero. \<open>i\<close> is the position in \<open>s\<close>, \<open>val\<close> the value and \<open>digLen\<close>
  the number of digits of the field being read, \<open>pos\<close> the number of fields stored.
\<close>

function parseIPv4Fields_loop ::
  "string \<Rightarrow> nat \<Rightarrow> nat \<Rightarrow> nat \<Rightarrow> nat \<Rightarrow> byte list \<Rightarrow> byte list option" where
  "parseIPv4Fields_loop s i val pos digLen flds =
     (if \<not> i < length s then
        (if pos < 3 then None else Some (flds @ [of_nat val]))
      else if is_digit (s ! i) then
        (if digLen = 1 \<and> val = 0 then None
         else let val' = val * 10 + digit_val (s ! i) in
           if val' > 255 then None
           else parseIPv4Fields_loop s (i + 1) val' pos (digLen + 1) flds)
      else if s ! i = CHR ''.'' then
        (if i = 0 \<or> i = length s - 1 \<or> s ! (i - 1) = CHR ''.'' then None
         else if pos = 3 then None
         else parseIPv4Fields_loop s (i + 1) 0 (pos + 1) 0 (flds @ [of_nat val]))
      else None)"
  by pat_completeness auto
termination
  by (relation "measure (\<lambda>(s, i, val, pos, digLen, flds). length s - i)") auto

declare parseIPv4Fields_loop.simps [simp del]

definition parseIPv4Fields :: "string \<Rightarrow> byte list option" where
  "parseIPv4Fields s = parseIPv4Fields_loop s 0 0 0 0 []"

definition parseIPv4 :: "string \<Rightarrow> Addr option" where
  "parseIPv4 s = map_option Addr4 (parseIPv4Fields s)"

text \<open>
  The loop of \<open>parseIPv6\<close>: groups of one to four hexadecimal digits separated by
  colons, at most one \<open>::\<close>, and possibly a dotted IPv4 address as the last four bytes.
  \<open>s\<close> is the text still to read, \<open>ip\<close> the bytes stored so far (the source's index
  \<open>i\<close> is their number) and \<open>ellipsis\<close> the position of the \<open>::\<close>, if one was read;
  \<open>hexs\<close> are the hexadecimal digits at the start of \<open>s\<close>, \<open>off\<close> their number and \<open>acc\<close>
  (a \<open>uint32\<close>) their value.
  The loop returns the text it left unread, the bytes and the ellipsis.
\<close>

function parseIPv6_loop ::
  "string \<Rightarrow> byte list \<Rightarrow> nat option \<Rightarrow> (string \<times> byte list \<times> nat option) option" where
  "parseIPv6_loop s ip ellipsis =
     (if \<not> length ip < 16 then Some (s, ip, ellipsis)
      else
        let hexs = takeWhile is_hex s;
            off = length hexs;
            acc = foldl (\<lambda>a c. push_bit 4 a + of_nat (hex_val c)) (0 :: 32 word) hexs
        in
        if off > 4 then None
        else if off = 0 then None
        else if off < length s \<and> s ! off = CHR ''.'' then
          (if ellipsis = None \<and> length ip \<noteq> 12 then None
           else if length ip + 4 > 16 then None
           else (case parseIPv4Fields s of
                   None \<Rightarrow> None
                 | Some flds \<Rightarrow> Some ([], ip @ flds, ellipsis)))
        else
          let ip' = ip @ [ucast (drop_bit 8 acc), ucast acc];
              s' = drop off s
          in
          if s' = [] then Some (s', ip', ellipsis)
          else if hd s' \<noteq> CHR '':'' then None
          else if length s' = 1 then None
          else
            let s'' = tl s' in
            if hd s'' = CHR '':'' then
              (if ellipsis \<noteq> None then None
               else if tl s'' = [] then Some ([], ip', Some (length ip'))
               else parseIPv6_loop (tl s'') ip' (Some (length ip')))
            else parseIPv6_loop s'' ip' ellipsis)"
  by pat_completeness auto
termination
  by (relation "measure (\<lambda>(s, ip, ellipsis). length s)") auto

declare parseIPv6_loop.simps [simp del]

text \<open>
  \<open>parseIPv6\<close>: the zone after the first \<open>%\<close> is split off (it may not be empty), a
  leading \<open>::\<close> is read, the loop runs, and the ellipsis is expanded to the zero bytes
  that were left out.
\<close>

definition parseIPv6 :: "string \<Rightarrow> Addr option" where
  "parseIPv6 inp =
     (let hasZone = (CHR ''%'' \<in> set inp);
          s = takeWhile (\<lambda>c. c \<noteq> CHR ''%'') inp;
          zone = (if hasZone then tl (dropWhile (\<lambda>c. c \<noteq> CHR ''%'') inp) else [])
      in
      if hasZone \<and> zone = [] then None
      else
        let lead = (length s \<ge> 2 \<and> s ! 0 = CHR '':'' \<and> s ! 1 = CHR '':'');
            ellipsis = (if lead then Some 0 else None);
            s = (if lead then drop 2 s else s)
        in
        if lead \<and> s = [] then Some (Addr6 (replicate 16 0) zone)
        else
          (case parseIPv6_loop s [] ellipsis of
             None \<Rightarrow> None
           | Some (s, ip, ellipsis) \<Rightarrow>
               if s \<noteq> [] then None
               else if length ip < 16 then
                 (case ellipsis of
                    None \<Rightarrow> None
                  | Some e \<Rightarrow>
                      Some (Addr6 (take e ip @ replicate (16 - length ip) 0 @ drop e ip) zone))
               else if ellipsis \<noteq> None then None
               else Some (Addr6 ip zone)))"

text \<open>\<open>ParseAddr\<close> looks for the first dot, colon or percent sign to choose the parser.\<close>

fun ParseAddr_scan :: "string \<Rightarrow> string \<Rightarrow> Addr option" where
  "ParseAddr_scan s [] = None"
| "ParseAddr_scan s (c # cs) =
     (if c = CHR ''.'' then parseIPv4 s
      else if c = CHR '':'' then parseIPv6 s
      else if c = CHR ''%'' then None
      else ParseAddr_scan s cs)"

definition ParseAddr :: "string \<Rightarrow> Addr option" where
  "ParseAddr s = ParseAddr_scan s s"

text \<open>\<open>net.ParseIP\<close>: the 16-byte form of the parsed address; nil when the text is not an
  address or has a zone.\<close>

definition ParseIP :: "string \<Rightarrow> IP" where
  "ParseIP s =
     (case ParseAddr s of
        None \<Rightarrow> None
      | Some ip \<Rightarrow> if Zone ip \<noteq> [] then None else Some (As16 ip))"

subsection \<open>Addresses, masks and networks\<close>

text \<open>\<open>IP.To4\<close>: the 4-byte form of an IPv4 address (given in 4 bytes, or in 16 bytes
  with the prefix \<open>::ffff:0:0/96\<close>), nil for any other value.\<close>

definition isZeros :: "byte list \<Rightarrow> bool" where
  "isZeros p = list_all (\<lambda>b. b = 0) p"

definition To4 :: "IP \<Rightarrow> IP" where
  "To4 ip =
     (case ip of
        None \<Rightarrow> None
      | Some bs \<Rightarrow>
          if length bs = IPv4len then Some bs
          else if length bs = IPv6len \<and> isZeros (take 10 bs)
                  \<and> bs ! 10 = 0xff \<and> bs ! 11 = 0xff
          then Some (drop 12 (take 16 bs))
          else None)"

text \<open>\<open>CIDRMask(ones, bits)\<close>: \<open>ones\<close> one bits followed by zero bits, \<open>bits\<close> bits in all;
  nil unless \<open>bits\<close> is 32 or 128 and \<open>ones\<close> is between 0 and \<open>bits\<close>. The loop fills
  \<open>l\<close> bytes with the \<open>n\<close> one bits still to write.\<close>

fun CIDRMask_loop :: "nat \<Rightarrow> nat \<Rightarrow> byte list" where
  "CIDRMask_loop 0 n = []"
| "CIDRMask_loop (Suc l) n =
     (if n \<ge> 8 then 0xff # CIDRMask_loop l (n - 8)
      else NOT (drop_bit n 0xff) # CIDRMask_loop l 0)"

definition CIDRMask :: "int \<Rightarrow> int \<Rightarrow> IPMask" where
  "CIDRMask ones bits =
     (if bits \<noteq> 8 * int IPv4len \<and> bits \<noteq> 8 * int IPv6len then None
      else if ones < 0 \<or> ones > bits then None
      else Some (CIDRMask_loop (nat (bits div 8)) (nat ones)))"

text \<open>\<open>IP.Mask\<close>: the address with the mask applied, byte by byte; a 16-byte mask
  whose first 12 bytes are \<open>0xff\<close> fits a 4-byte address, and a 4-byte mask fits a
  16-byte IPv4 address; nil when the lengths do not fit.\<close>

definition allFF :: "byte list \<Rightarrow> bool" where
  "allFF b = list_all (\<lambda>c. c = 0xff) b"

definition IP_Mask :: "IP \<Rightarrow> IPMask \<Rightarrow> IP" where
  "IP_Mask ip msk =
     (let ipb = (case ip of None \<Rightarrow> [] | Some bs \<Rightarrow> bs);
          mb = (case msk of None \<Rightarrow> [] | Some bs \<Rightarrow> bs);
          mb = (if length mb = IPv6len \<and> length ipb = IPv4len \<and> allFF (take 12 mb)
                then drop 12 mb else mb);
          ipb = (if length mb = IPv4len \<and> length ipb = IPv6len \<and> take 12 ipb = v4InV6Prefix
                 then drop 12 ipb else ipb)
      in if length ipb \<noteq> length mb then None
         else Some (map2 (\<lambda>a b. a AND b) ipb mb))"

text \<open>\<open>networkNumberAndMask\<close>: the network's address, in 4 bytes when it is an IPv4
  address, and a mask of the same length; a pair of nil slices for a network that is
  not well formed.\<close>

definition networkNumberAndMask :: "IPNet \<Rightarrow> IP \<times> IPMask" where
  "networkNumberAndMask n =
     (let ip = To4 (IP n) in
      if ip = None \<and> len (IP n) \<noteq> IPv6len then (None, None)
      else
        let ip = (if ip = None then IP n else ip) in
        if len (Mask n) = IPv4len then
          (if len ip \<noteq> IPv4len then (None, None) else (ip, Mask n))
        else if len (Mask n) = IPv6len then
          (if len ip = IPv4len then (ip, map_option (drop 12) (Mask n)) else (ip, Mask n))
        else (None, None))"

text \<open>\<open>IPNet.Contains\<close>: the address, in 4 bytes when it is an IPv4 address, has the
  length of the network's address and agrees with it on the bits of the mask.\<close>

definition Contains :: "IPNet \<Rightarrow> IP \<Rightarrow> bool" where
  "Contains n ip =
     (case networkNumberAndMask n of
        (nn, m) \<Rightarrow>
          let x = To4 ip;
              ip = (if x \<noteq> None then x else ip);
              l = len ip
          in
          if l \<noteq> len nn then False
          else
            (let nnb = (case nn of None \<Rightarrow> [] | Some bs \<Rightarrow> bs);
                 mb = (case m of None \<Rightarrow> [] | Some bs \<Rightarrow> bs);
                 ipb = (case ip of None \<Rightarrow> [] | Some bs \<Rightarrow> bs)
             in list_all (\<lambda>i. (nnb ! i) AND (mb ! i) = (ipb ! i) AND (mb ! i)) [0..<l]))"

subsection \<open>Parsing a network (net.ParseCIDR)\<close>

text \<open>\<open>dtoi\<close>: the decimal number at the start of the text, how many digits it has, and
  whether there is one below \<open>0xFFFFFF\<close>.\<close>

definition big :: int where "big = 0xFFFFFF"

fun dtoi_loop :: "string \<Rightarrow> int \<Rightarrow> nat \<Rightarrow> int \<times> nat \<times> bool" where
  "dtoi_loop [] n i = (if i = 0 then (0, 0, False) else (n, i, True))"
| "dtoi_loop (c # cs) n i =
     (if is_digit c then
        (let n' = n * 10 + int (digit_val c) in
         if n' \<ge> big then (big, i, False) else dtoi_loop cs n' (i + 1))
      else if i = 0 then (0, 0, False) else (n, i, True))"

definition dtoi :: "string \<Rightarrow> int \<times> nat \<times> bool" where
  "dtoi s = dtoi_loop s 0 0"

text \<open>\<open>ParseCIDR\<close>: an address, a slash and a prefix length of at most the address's
  width. It returns the address and the network (the masked address and the mask), or
  no result (an error in Go) for any other text.\<close>

definition ParseCIDR :: "string \<Rightarrow> (IP \<times> IPNet) option" where
  "ParseCIDR s =
     (case Cut s (CHR ''/'') of
        None \<Rightarrow> None
      | Some (addr, msk) \<Rightarrow>
          (case ParseAddr addr of
             None \<Rightarrow> None
           | Some ipAddr \<Rightarrow>
               if Zone ipAddr \<noteq> [] then None
               else
                 (case dtoi msk of
                    (n, i, ok) \<Rightarrow>
                      if \<not> ok \<or> i \<noteq> length msk \<or> n < 0 \<or> n > int (BitLen ipAddr) then None
                      else
                        let m = CIDRMask n (int (BitLen ipAddr));
                            addr16 = As16 ipAddr
                        in Some (Some addr16, \<lparr>IP = IP_Mask (Some addr16) m, Mask = m\<rparr>))))"

section \<open>The trusted proxies (main.go)\<close>

record TrustedProxies =
  trustedCIDRs :: "IPNet list"

text \<open>\<open>New\<close> provides an initialized \<open>TrustedProxies\<close>.\<close>

definition New :: TrustedProxies where
  "New = \<lparr>trustedCIDRs = []\<rparr>"

text \<open>\<open>netFromIPOrCIDR\<close>: the network a text stands for, a CIDR specification or a
  single address (then the network of that address alone).\<close>

definition netFromIPOrCIDR :: "string \<Rightarrow> error + IPNet" where
  "netFromIPOrCIDR s =
     (case ParseCIDR s of
        Some (_, ipnet) \<Rightarrow> Inr ipnet
      | None \<Rightarrow>
          (let ip = ParseIP s in
           if ip = None then Inl (ErrInvalidIPSpecification s)
           else
             let ipv4 = To4 ip;
                 ip = (if ipv4 \<noteq> None then ipv4 else ip);
                 msk = CIDRMask (8 * int (len ip)) (8 * int (len ip))
             in Inr \<lparr>IP = ip, Mask = msk\<rparr>))"

text \<open>\<open>AddFromString\<close> adds a trusted proxy (IP or CIDR) to the list. It returns the Go
  error (always nil, \<open>None\<close>) and the updated receiver.\<close>

definition AddFromString :: "TrustedProxies \<Rightarrow> string \<Rightarrow> error option \<times> TrustedProxies" where
  "AddFromString t s =
     (case netFromIPOrCIDR s of
        Inl err \<Rightarrow> (None, t)
      | Inr ipnet \<Rightarrow> (None, t\<lparr>trustedCIDRs := trustedCIDRs t @ [ipnet]\<rparr>))"

text \<open>\<open>IsIPTrusted\<close> checks if a given IP is trusted: the matching network, or nil
  (\<open>None\<close>) if there is no match. The Go function takes a pointer that its callers have
  checked; the model takes the address it points to.\<close>

fun IsIPTrusted_loop :: "IPNet list \<Rightarrow> IP \<Rightarrow> IPNet option" where
  "IsIPTrusted_loop [] ip = None"
| "IsIPTrusted_loop (ipnet # rest) ip =
     (if Contains ipnet ip then Some ipnet else IsIPTrusted_loop rest ip)"

definition IsIPTrusted :: "TrustedProxies \<Rightarrow> IP \<Rightarrow> IPNet option" where
  "IsIPTrusted t ip = IsIPTrusted_loop (trustedCIDRs t) ip"

text \<open>\<open>headerToIPs\<close>: the header's entries as pointers to addresses (never nil
  pointers; the address is nil where an entry does not parse).\<close>

definition headerToIPs :: "string \<Rightarrow> IP option list" where
  "headerToIPs headerValue =
     (let items = Split headerValue (CHR '','') in
      if length items = 1 \<and> TrimSpace (items ! 0) = [] then []
      else map (\<lambda>val. Some (ParseIP (TrimSpace val))) items)"

text \<open>
  The loop of \<open>filterOutIPsFromUntrustedSources\<close>, moving backwards from \<open>idx\<close>: the
  entry is read with Go's bounds check; a nil pointer or a nil address ends the loop
  before anything is appended; any other entry is appended, and the loop goes on to
  the entry before it when the address is trusted and ends when it is not.
\<close>

function walk :: "TrustedProxies \<Rightarrow> IP option list \<Rightarrow> int \<Rightarrow> IP option list \<Rightarrow> error + IP option list" where
  "walk t ips idx rv =
     (case index ips idx of
        Inl panic \<Rightarrow> Inl panic
      | Inr ip \<Rightarrow>
          (case ip of
             None \<Rightarrow> Inr rv
           | Some None \<Rightarrow> Inr rv
           | Some (Some bs) \<Rightarrow>
               let rv = rv @ [ip] in
               if IsIPTrusted t (Some bs) \<noteq> None then walk t ips (idx - 1) rv
               else Inr rv))"
  by pat_completeness auto
termination
  by (relation "measure (\<lambda>(t, ips, idx, rv). nat (idx + 1))")
     (auto simp: index_def split: if_splits)

declare walk.simps [simp del]

definition filterOutIPsFromUntrustedSources ::
  "TrustedProxies \<Rightarrow> IP \<Rightarrow> string \<Rightarrow> error + IP option list" where
  "filterOutIPsFromUntrustedSources t remoteAddr header =
     (let rv = [];
          ips = headerToIPs header;
          ips = ips @ [Some remoteAddr];
          idx = int (length ips) - 1
      in walk t ips idx rv)"

text \<open>\<open>DeduceClientIP\<close> filters out untrusted information from the header and returns
  the closest approximation of the client IP: the last entry of the filtered list,
  read with Go's bounds check.\<close>

definition DeduceClientIP :: "TrustedProxies \<Rightarrow> IP \<Rightarrow> string \<Rightarrow> error + IP option" where
  "DeduceClientIP t remoteAddr header =
     (case filterOutIPsFromUntrustedSources t remoteAddr header of
        Inl panic \<Rightarrow> Inl panic
      | Inr trustedIPs \<Rightarrow> index trustedIPs (int (length trustedIPs) - 1))"

section \<open>Notions used to state the properties\<close>

text \<open>An entry of the chain is parseable when neither the pointer nor the address is
  nil, and trusted when it is parseable and \<open>IsIPTrusted\<close> finds a network for it.\<close>

definition parseable :: "IP option \<Rightarrow> bool" where
  "parseable p = (case p of Some (Some bs) \<Rightarrow> True | _ \<Rightarrow> False)"

definition trusted :: "TrustedProxies \<Rightarrow> IP option \<Rightarrow> bool" where
  "trusted t p = (case p of Some (Some bs) \<Rightarrow> IsIPTrusted t (Some bs) \<noteq> None | _ \<Rightarrow> False)"

text \<open>The callers' loop \<open>for _, spec := range specs { tr.AddFromString(spec) }\<close>.\<close>

definition AddAll :: "TrustedProxies \<Rightarrow> string list \<Rightarrow> TrustedProxies" where
  "AddAll t specs = foldl (\<lambda>t s. snd (AddFromString t s)) t specs"

text \<open>The networks that a list of specifications adds, in the order of the calls: one
  for each specification that \<open>netFromIPOrCIDR\<close> accepts, none for the others.\<close>

definition added :: "string list \<Rightarrow> IPNet list" where
  "added specs = concat (map (\<lambda>s. case netFromIPOrCIDR s of Inl err \<Rightarrow> [] | Inr ipnet \<Rightarrow> [ipnet]) specs)"

text \<open>The family of an address, as Go decides it: an IPv4 address is one that \<open>To4\<close>
  accepts (4 bytes, or 16 bytes in the IPv4-mapped form \<open>::ffff:a.b.c.d\<close>), an IPv6
  address any other 16-byte address. The family of a network is that of its address.\<close>

definition is_IPv4 :: "IP \<Rightarrow> bool" where
  "is_IPv4 ip = (To4 ip \<noteq> None)"

definition is_IPv6 :: "IP \<Rightarrow> bool" where
  "is_IPv6 ip = (len ip = IPv6len \<and> To4 ip = None)"

text \<open>A text is white space when it is a sequence of white-space code points in
  UTF-8 (the empty text included).\<close>

inductive white_space :: "string \<Rightarrow> bool" where
  ws_Nil: "white_space []"
| ws_Cons: "w \<in> set space_runes \<Longrightarrow> white_space s \<Longrightarrow> white_space (w @ s)"

text \<open>\<open>strings.Join\<close> for a one-byte separator, the inverse of \<open>Split\<close>.\<close>

fun Join :: "string list \<Rightarrow> char \<Rightarrow> string" where
  "Join [] sep = []"
| "Join [x] sep = x"
| "Join (x # y # ys) sep = x @ sep # Join (y # ys) sep"

section \<open>Values of the examples\<close>

text \<open>The addresses \<open>10.10.10.10\<close>, \<open>20.20.20.20\<close> and \<open>30.30.30.30\<close> as \<open>ParseIP\<close> returns
  them (16 bytes, IPv4-mapped), and the stores that trust the first, and the first two.\<close>

abbreviation addr_10 :: "byte list" where
  "addr_10 \<equiv> [0, 0, 0, 0, 0, 0, 0, 0, 0, 0, 0xff, 0xff, 10, 10, 10, 10]"

abbreviation addr_20 :: "byte list" where
  "addr_20 \<equiv> [0, 0, 0, 0, 0, 0, 0, 0, 0, 0, 0xff, 0xff, 20, 20, 20, 20]"

abbreviation addr_30 :: "byte list" where
  "addr_30 \<equiv> [0, 0, 0, 0, 0, 0, 0, 0, 0, 0, 0xff, 0xff, 30, 30, 30, 30]"

abbreviation store_10 :: TrustedProxies where
  "store_10 \<equiv> AddAll New [''10.10.10.10'']"

abbreviation store_10_20 :: TrustedProxies where
  "store_10_20 \<equiv> AddAll New [''10.10.10.10'', ''20.20.20.20'']"

text \<open>The networks \<open>192.168.10.0/24\<close>, \<open>192.168.0.0/16\<close>, \<open>::/0\<close>, \<open>0.0.0.0/0\<close>, \<open>10.0.0.0/8\<close>
  and \<open>2001:db8::/32\<close> as \<open>ParseCIDR\<close> returns them, and the address \<open>2001:db8::1\<close>.\<close>

abbreviation net_192_168_10_24 :: "IPNet" where
  "net_192_168_10_24 \<equiv> \<lparr>IP = Some [192, 168, 10, 0], Mask = Some [0xff, 0xff, 0xff, 0]\<rparr>"

abbreviation net_192_168_16 :: "IPNet" where
  "net_192_168_16 \<equiv> \<lparr>IP = Some [192, 168, 0, 0], Mask = Some [0xff, 0xff, 0, 0]\<rparr>"

abbreviation net_v6_all :: "IPNet" where
  "net_v6_all \<equiv> \<lparr>IP = Some [0, 0, 0, 0, 0, 0, 0, 0, 0, 0, 0, 0, 0, 0, 0, 0], Mask = Some [0, 0, 0, 0, 0, 0, 0, 0, 0, 0, 0, 0, 0, 0, 0, 0]\<rparr>"

abbreviation net_v4_all :: "IPNet" where
  "net_v4_all \<equiv> \<lparr>IP = Some [0, 0, 0, 0], Mask = Some [0, 0, 0, 0]\<rparr>"

abbreviation addr_2001_db8_1 :: "byte list" where
  "addr_2001_db8_1 \<equiv> [0x20, 0x01, 0x0d, 0xb8, 0, 0, 0, 0, 0, 0, 0, 0, 0, 0, 0, 1]"

abbreviation net_10_8 :: "IPNet" where
  "net_10_8 \<equiv> \<lparr>IP = Some [10, 0, 0, 0], Mask = Some [0xff, 0, 0, 0]\<rparr>"

abbreviation net_2001_db8_32 :: "IPNet" where
  "net_2001_db8_32 \<equiv> \<lparr>IP = Some [0x20, 0x01, 0x0d, 0xb8, 0, 0, 0, 0, 0, 0, 0, 0, 0, 0, 0, 0], Mask = Some [0xff, 0xff, 0xff, 0xff, 0, 0, 0, 0, 0, 0, 0, 0, 0, 0, 0, 0]\<rparr>"

section \<open>The backward walk\<close>

text \<open>
  The walk from index \<open>k - 1\<close> down: it appends the entries that are trusted, then
  stops at the first entry \<open>p\<close> that is not, appending it only when it is parseable;
  when every entry down to index 0 is trusted, the index becomes \<open>-1\<close> and the read
  \<open>ips[idx]\<close> panics.
\<close>

lemma index_neg: "index xs (- 1) = Inl (IndexOutOfRange (- 1) (length xs))"
  by (simp add: index_def)

lemma index_nat: "k < length xs \<Longrightarrow> index xs (int k) = Inr (xs ! k)"
  by (simp add: index_def)

lemma walk_char:
  "k \<le> length ips \<Longrightarrow>
   walk t ips (int k - 1) rv =
     (case dropWhile (trusted t) (rev (take k ips)) of
        [] \<Rightarrow> Inl (IndexOutOfRange (- 1) (length ips))
      | p # _ \<Rightarrow>
          Inr (rv @ takeWhile (trusted t) (rev (take k ips)) @ (if parseable p then [p] else [])))"
proof (induction k arbitrary: rv)
  case 0
  show ?case by (subst walk.simps) (simp add: index_neg)
next
  case (Suc k)
  then have k: "k < length ips" by simp
  have idx: "int (Suc k) - 1 = int k" by simp
  have rv: "rev (take (Suc k) ips) = ips ! k # rev (take k ips)"
    using k by (simp add: take_Suc_conv_app_nth)
  have IH: "\<And>rv. walk t ips (int k - 1) rv =
     (case dropWhile (trusted t) (rev (take k ips)) of
        [] \<Rightarrow> Inl (IndexOutOfRange (- 1) (length ips))
      | p # _ \<Rightarrow>
          Inr (rv @ takeWhile (trusted t) (rev (take k ips)) @ (if parseable p then [p] else [])))"
    using Suc.IH k by simp
  show ?case
  proof (cases "ips ! k")
    case None
    then show ?thesis
      unfolding idx rv by (subst walk.simps) (simp add: index_nat k trusted_def parseable_def)
  next
    case (Some a)
    show ?thesis
    proof (cases a)
      case None
      with Some show ?thesis
        unfolding idx rv by (subst walk.simps) (simp add: index_nat k trusted_def parseable_def)
    next
      case (Some bs)
      with \<open>ips ! k = Some a\<close> have e: "ips ! k = Some (Some bs)" by simp
      show ?thesis
      proof (cases "IsIPTrusted t (Some bs) = None")
        case True
        then show ?thesis
          unfolding idx rv by (subst walk.simps) (simp add: index_nat k e trusted_def parseable_def)
      next
        case False
        then have tk: "trusted t (Some (Some bs))"
          by (simp add: trusted_def)
        from False show ?thesis
          unfolding idx rv
          by (subst walk.simps) (simp add: index_nat k e tk IH list.case_eq_if)
      qed
    qed
  qed
qed

lemma filterOut_char:
  "filterOutIPsFromUntrustedSources t remoteAddr header =
     (case dropWhile (trusted t) (Some remoteAddr # rev (headerToIPs header)) of
        [] \<Rightarrow> Inl (IndexOutOfRange (- 1) (length (headerToIPs header) + 1))
      | p # _ \<Rightarrow>
          Inr (takeWhile (trusted t) (Some remoteAddr # rev (headerToIPs header))
               @ (if parseable p then [p] else [])))"
proof -
  let ?ips = "headerToIPs header @ [Some remoteAddr]"
  have a: "rev (take (length ?ips) ?ips) = Some remoteAddr # rev (headerToIPs header)"
    by simp
  have "filterOutIPsFromUntrustedSources t remoteAddr header
          = walk t ?ips (int (length ?ips) - 1) []"
    by (simp add: filterOutIPsFromUntrustedSources_def Let_def)
  also have "\<dots> =
     (case dropWhile (trusted t) (rev (take (length ?ips) ?ips)) of
        [] \<Rightarrow> Inl (IndexOutOfRange (- 1) (length ?ips))
      | p # _ \<Rightarrow>
          Inr ([] @ takeWhile (trusted t) (rev (take (length ?ips) ?ips))
               @ (if parseable p then [p] else [])))"
    by (rule walk_char) simp
  finally have e: "filterOutIPsFromUntrustedSources t remoteAddr header =
     (case dropWhile (trusted t) (rev (take (length ?ips) ?ips)) of
        [] \<Rightarrow> Inl (IndexOutOfRange (- 1) (length ?ips))
      | p # _ \<Rightarrow>
          Inr ([] @ takeWhile (trusted t) (rev (take (length ?ips) ?ips))
               @ (if parseable p then [p] else [])))" .
  have b: "length ?ips = length (headerToIPs header) + 1"
    by simp
  show ?thesis
    unfolding e a by (simp only: b append_Nil)
qed


text \<open>What a returned chain looks like, and where the walk stops.\<close>

lemma case_dropWhile_Inr:
  "(case dropWhile P R of [] \<Rightarrow> Inl e | p # _ \<Rightarrow> Inr (takeWhile P R @ f p)) = Inr chain
   \<Longrightarrow> \<exists>p rest. dropWhile P R = p # rest \<and> chain = takeWhile P R @ f p"
  by (cases "dropWhile P R") simp_all

lemma filterOut_Inr:
  assumes "filterOutIPsFromUntrustedSources t remoteAddr header = Inr chain"
  shows "\<exists>T p rest. Some remoteAddr # rev (headerToIPs header) = T @ p # rest
                 \<and> (\<forall>x \<in> set T. trusted t x)
                 \<and> \<not> trusted t p
                 \<and> chain = T @ (if parseable p then [p] else [])"
proof -
  let ?R = "rev (headerToIPs header @ [Some remoteAddr])"
  have R: "Some remoteAddr # rev (headerToIPs header) = ?R" by simp
  from assms have "(case dropWhile (trusted t) ?R of
        [] \<Rightarrow> Inl (IndexOutOfRange (- 1) (length (headerToIPs header) + 1))
      | p # _ \<Rightarrow> Inr (takeWhile (trusted t) ?R @ (if parseable p then [p] else []))) = Inr chain"
    unfolding filterOut_char R .
  from case_dropWhile_Inr [OF this]
  obtain p rest where d: "dropWhile (trusted t) ?R = p # rest"
    and c: "chain = takeWhile (trusted t) ?R @ (if parseable p then [p] else [])"
    by blast
  have "?R = takeWhile (trusted t) ?R @ dropWhile (trusted t) ?R"
    by (simp only: takeWhile_dropWhile_id)
  then have 1: "?R = takeWhile (trusted t) ?R @ p # rest"
    by (simp only: d)
  have 2: "\<not> trusted t p"
    using hd_dropWhile [of "trusted t" ?R] unfolding d by simp
  have 3: "\<forall>x \<in> set (takeWhile (trusted t) ?R). trusted t x"
    by (blast dest: set_takeWhileD)
  from 1 2 3 c show ?thesis
    unfolding R by blast
qed

lemma filterOut_stop:
  assumes sp: "headerToIPs header @ [Some remoteAddr] = older @ p # newer"
    and newer: "list_all (trusted t) newer"
    and p: "\<not> trusted t p"
  shows "filterOutIPsFromUntrustedSources t remoteAddr header
           = Inr (rev newer @ (if parseable p then [p] else []))"
proof -
  let ?R = "rev (headerToIPs header @ [Some remoteAddr])"
  have R: "Some remoteAddr # rev (headerToIPs header) = ?R" by simp
  have R': "?R = rev newer @ p # rev older"
    by (simp only: sp) simp
  have all: "\<And>x. x \<in> set (rev newer) \<Longrightarrow> trusted t x"
    using newer by (simp add: list_all_iff)
  have tw: "takeWhile (trusted t) ?R = rev newer"
    unfolding R' using takeWhile_append2 [of "rev newer" "trusted t" "p # rev older"] all p
    by simp
  have dw: "dropWhile (trusted t) ?R = p # rev older"
    unfolding R' using dropWhile_append2 [of "rev newer" "trusted t" "p # rev older"] all p
    by simp
  show ?thesis
    unfolding filterOut_char R by (simp only: tw dw list.case)
qed

lemma trusted_parseable: "trusted t p \<Longrightarrow> parseable p"
  by (auto simp: trusted_def parseable_def split: option.splits)

lemma not_parseable_None [simp]: "\<not> parseable (Some None)" "\<not> trusted t (Some None)"
  by (simp_all add: parseable_def trusted_def)

lemma parseable_Some [simp]: "parseable (Some (Some bs))"
  by (simp add: parseable_def)

lemma headerToIPs_empty: "headerToIPs [] = []"
  by code_simp

lemma index_last: "xs \<noteq> [] \<Longrightarrow> index xs (int (length xs) - 1) = Inr (last xs)"
  by (cases xs rule: rev_cases) (simp_all add: index_def nth_append)

section \<open>C1: the peer and every header entry trusted\<close>

text \<open>
  C1 (a defect of the code). The claim: when the peer and every candidate of the header
  are trusted, the walk ends once the index moves before index 0, and the deduced
  client is the last entry appended, the oldest header entry (the peer when the header
  is empty). The code does not do this. The loop of
  \<open>filterOutIPsFromUntrustedSources\<close> has no test for the index: once the entry at index
  0 is found trusted, \<open>idx\<close> is \<open>-1\<close> and the read \<open>ips[idx]\<close> panics, so for every such
  input both \<open>filterOutIPsFromUntrustedSources\<close> and \<open>DeduceClientIP\<close> end in the panic
  \<open>index out of range [-1]\<close> and return nothing.
\<close>

theorem C1_all_trusted_panics:
  assumes "list_all (trusted t) (headerToIPs header @ [Some remoteAddr])"
  shows "filterOutIPsFromUntrustedSources t remoteAddr header
           = Inl (IndexOutOfRange (- 1) (length (headerToIPs header) + 1))
         \<and> DeduceClientIP t remoteAddr header
           = Inl (IndexOutOfRange (- 1) (length (headerToIPs header) + 1))"
proof -
  from assms have "\<forall>p \<in> set (Some remoteAddr # rev (headerToIPs header)). trusted t p"
    by (auto simp: list_all_iff)
  then have "dropWhile (trusted t) (Some remoteAddr # rev (headerToIPs header)) = []"
    by (simp only: dropWhile_eq_Nil_conv)
  then have a: "filterOutIPsFromUntrustedSources t remoteAddr header
           = Inl (IndexOutOfRange (- 1) (length (headerToIPs header) + 1))"
    by (simp only: filterOut_char list.case)
  have "DeduceClientIP t remoteAddr header
           = Inl (IndexOutOfRange (- 1) (length (headerToIPs header) + 1))"
    by (simp only: DeduceClientIP_def a sum.case)
  with a show ?thesis by simp
qed

text \<open>The failing input: the trust list \<open>10.10.10.10\<close>, \<open>20.20.20.20\<close>, the peer
  \<open>10.10.10.10\<close> and the header \<open>20.20.20.20\<close>.\<close>

theorem C1_all_trusted_panics_witness:
  "list_all (trusted store_10_20)
     (headerToIPs ''20.20.20.20'' @ [Some (ParseIP ''10.10.10.10'')])
   \<and> filterOutIPsFromUntrustedSources store_10_20
       (ParseIP ''10.10.10.10'') ''20.20.20.20''
     = Inl (IndexOutOfRange (- 1) 2)
   \<and> DeduceClientIP store_10_20
       (ParseIP ''10.10.10.10'') ''20.20.20.20''
     = Inl (IndexOutOfRange (- 1) 2)"
proof -
  have h: "list_all (trusted store_10_20)
     (headerToIPs ''20.20.20.20'' @ [Some (ParseIP ''10.10.10.10'')])"
    by code_simp
  have n: "length (headerToIPs ''20.20.20.20'') + 1 = 2"
    by code_simp
  show ?thesis
    using h C1_all_trusted_panics [OF h] by (simp only: n simp_thms)
qed

section \<open>C2: a nil peer\<close>

text \<open>
  C2 (corrected). The claim: a nil (unparseable) peer is treated like an unparseable
  header candidate, the walk stops at once, and the peer slot is both the only element
  of the returned chain and the deduced client. In the code the test for nil comes
  before the append, so the walk stops at once and appends nothing: at the trust list
  \<open>10.10.10.10\<close>, a nil peer and the header \<open>20.20.20.20\<close> the returned chain is empty,
  not the one-element chain of the peer slot, and \<open>DeduceClientIP\<close> then reads
  \<open>trustedIPs[-1]\<close> of the empty chain and panics.
\<close>

theorem C2_nil_peer_counterexample:
  "filterOutIPsFromUntrustedSources store_10 None ''20.20.20.20'' = Inr []
   \<and> filterOutIPsFromUntrustedSources store_10 None ''20.20.20.20'' \<noteq> Inr [Some (None :: IP)]
   \<and> DeduceClientIP store_10 None ''20.20.20.20'' = Inl (IndexOutOfRange (- 1) 0)"
  by code_simp

text \<open>
  C2 as amended: for every trust store and every header, a nil peer stops the walk of
  \<open>filterOutIPsFromUntrustedSources\<close> at once, before anything is appended: the returned
  chain is empty, whatever the trust store and the header are. The peer is treated as
  an unparseable header candidate is: wherever the walk reads a nil address, at the
  peer's index or at a header entry's, it stops and returns what it has appended so
  far.
\<close>

theorem C2_nil_peer_empty_chain:
  "filterOutIPsFromUntrustedSources t None header = Inr []
   \<and> (index ips idx = Inr (Some None) \<longrightarrow> walk t ips idx rv = Inr rv)"
proof (intro conjI impI)
  have "headerToIPs header @ [Some None] = headerToIPs header @ Some None # []"
    by simp
  then have "filterOutIPsFromUntrustedSources t None header
               = Inr (rev [] @ (if parseable (Some None) then [Some None] else []))"
    by (rule filterOut_stop) simp_all
  then show "filterOutIPsFromUntrustedSources t None header = Inr []"
    by simp
next
  assume "index ips idx = Inr (Some None)"
  then show "walk t ips idx rv = Inr rv"
    by (subst walk.simps) simp
qed

theorem C2_nil_peer_empty_chain_witness:
  "filterOutIPsFromUntrustedSources store_10 None ''ugh, 20.20.20.20'' = Inr []
   \<and> index [Some None, Some (Some addr_10)] 0 = Inr (Some None)
   \<and> walk store_10 [Some None, Some (Some addr_10)] 0 [Some (Some addr_10)] = Inr [Some (Some addr_10)]"
proof -
  have h: "index [Some None, Some (Some addr_10)] 0 = Inr (Some None)"
    by (simp add: index_def)
  from h C2_nil_peer_empty_chain [of "store_10" "''ugh, 20.20.20.20''"
      "[Some None, Some (Some addr_10)]" 0 "[Some (Some addr_10)]"]
  show ?thesis by blast
qed

section \<open>C3: an unparseable entry in the walk\<close>

text \<open>
  C3 (corrected). The claim: every visited entry is appended before the decision to
  stop, so an unparseable entry ends the walk and is the last element of the returned
  chain. In the code the test for nil comes before the append: at the trust list
  \<open>10.10.10.10\<close>, the peer \<open>10.10.10.10\<close> and the header \<open> 1 2 2 horse 43 2 2 1 \<close> (the
  repository's test "Bogus header, trusted remote") the header is one unparseable entry,
  and the returned chain is the peer alone.
\<close>

theorem C3_unparseable_entry_counterexample:
  "headerToIPs '' 1 2 2 horse 43 2 2 1 '' = [Some None]
   \<and> filterOutIPsFromUntrustedSources store_10 (ParseIP ''10.10.10.10'') '' 1 2 2 horse 43 2 2 1 ''
       = Inr [Some (Some addr_10)]
   \<and> Some (None :: IP) \<notin> set [Some (Some addr_10)]"
  by code_simp

text \<open>
  C3 as amended: the walk appends the trusted entries it passes and stops at the first
  entry \<open>p\<close> that is not trusted (all the entries \<open>newer\<close> after it, up to the peer, being
  trusted). When \<open>p\<close> is a parseable address, it is appended before the walk stops and
  is the last element of the returned chain; when \<open>p\<close> is unparseable, the walk stops
  just the same but \<open>p\<close> is not appended. So a returned chain holds parseable entries
  only.
\<close>

theorem C3_stop_rule:
  "(headerToIPs header @ [Some remoteAddr] = older @ p # newer
      \<and> list_all (trusted t) newer \<and> \<not> trusted t p
    \<longrightarrow> filterOutIPsFromUntrustedSources t remoteAddr header
          = Inr (rev newer @ (if parseable p then [p] else [])))
   \<and> (filterOutIPsFromUntrustedSources t remoteAddr header = Inr chain
        \<longrightarrow> list_all parseable chain)"
proof (intro conjI impI)
  assume "headerToIPs header @ [Some remoteAddr] = older @ p # newer
      \<and> list_all (trusted t) newer \<and> \<not> trusted t p"
  then show "filterOutIPsFromUntrustedSources t remoteAddr header
          = Inr (rev newer @ (if parseable p then [p] else []))"
    by (simp add: filterOut_stop)
next
  assume "filterOutIPsFromUntrustedSources t remoteAddr header = Inr chain"
  from filterOut_Inr [OF this] obtain T p where
    T: "\<forall>x \<in> set T. trusted t x"
    and c: "chain = T @ (if parseable p then [p] else [])"
    by blast
  from T have "\<forall>x \<in> set T. parseable x"
    by (blast dest: trusted_parseable)
  then show "list_all parseable chain"
    unfolding c by (auto simp: list_all_iff)
qed

theorem C3_stop_rule_witness:
  "headerToIPs '' 1 2 2 horse 43 2 2 1 '' @ [Some (Some addr_10)] = [] @ Some None # [Some (Some addr_10)]
   \<and> list_all (trusted store_10) [Some (Some addr_10)]
   \<and> \<not> trusted store_10 (Some None)
   \<and> filterOutIPsFromUntrustedSources store_10 (Some addr_10) '' 1 2 2 horse 43 2 2 1 '' = Inr [Some (Some addr_10)]
   \<and> list_all parseable [Some (Some addr_10)]"
proof -
  have h1: "headerToIPs '' 1 2 2 horse 43 2 2 1 '' @ [Some (Some addr_10)] = [] @ Some None # [Some (Some addr_10)]"
    by code_simp
  have h2: "list_all (trusted store_10) [Some (Some addr_10)]"
    by code_simp
  have h3: "\<not> trusted store_10 (Some None)"
    by simp
  have r: "rev [Some (Some addr_10)] @ (if parseable (Some None) then [Some None] else [])
             = [Some (Some addr_10)]"
    by simp
  from h1 h2 h3
    C3_stop_rule [where header = "'' 1 2 2 horse 43 2 2 1 ''" and remoteAddr = "Some addr_10" and older = "[]"
      and p = "Some None" and newer = "[Some (Some addr_10)]" and t = "store_10"
      and chain = "[Some (Some addr_10)]"]
  show ?thesis
    unfolding r by blast
qed

section \<open>C4: an empty header\<close>

text \<open>
  C4 (a defect of the code). The claim: with an empty header the chain is the peer
  alone and the peer is the deduced client, whether the peer is trusted or not. The
  code does this for a peer that is not trusted. For a trusted peer the walk goes on
  to index \<open>-1\<close> and the read \<open>ips[idx]\<close> panics (the defect of C1): with the trust list
  \<open>10.10.10.10\<close>, the peer \<open>10.10.10.10\<close> and the empty header, nothing is returned.
\<close>

theorem C4_empty_header:
  "filterOutIPsFromUntrustedSources t (Some bs) []
     = (if IsIPTrusted t (Some bs) = None then Inr [Some (Some bs)]
        else Inl (IndexOutOfRange (- 1) 1))
   \<and> DeduceClientIP t (Some bs) []
     = (if IsIPTrusted t (Some bs) = None then Inr (Some (Some bs))
        else Inl (IndexOutOfRange (- 1) 1))"
proof -
  have a: "filterOutIPsFromUntrustedSources t (Some bs) []
     = (if IsIPTrusted t (Some bs) = None then Inr [Some (Some bs)]
        else Inl (IndexOutOfRange (- 1) 1))"
    by (simp add: filterOut_char headerToIPs_empty trusted_def)
  show ?thesis
    unfolding DeduceClientIP_def a by (simp add: index_def)
qed

theorem C4_empty_header_witness:
  "ParseIP ''10.10.10.10'' = Some addr_10
   \<and> IsIPTrusted store_10 (Some addr_10) \<noteq> None
   \<and> filterOutIPsFromUntrustedSources store_10 (Some addr_10) [] = Inl (IndexOutOfRange (- 1) 1)
   \<and> DeduceClientIP store_10 (Some addr_10) [] = Inl (IndexOutOfRange (- 1) 1)"
proof -
  have p: "ParseIP ''10.10.10.10'' = Some addr_10"
    by code_simp
  have h: "IsIPTrusted store_10 (Some addr_10) \<noteq> None"
    by code_simp
  from p h C4_empty_header [of "store_10" "addr_10"]
  show ?thesis by simp
qed

section \<open>C9: the deduced client is in the chain\<close>

text \<open>
  C9. For every trust store, every peer that is not nil and every header for which
  \<open>filterOutIPsFromUntrustedSources\<close> returns a chain: the chain is not empty, it starts
  with the peer (trusted or not), and \<open>DeduceClientIP\<close> returns an entry of that chain.
\<close>

theorem C9_deduced_in_chain:
  assumes "filterOutIPsFromUntrustedSources t (Some bs) header = Inr chain"
  shows "chain \<noteq> [] \<and> hd chain = Some (Some bs)
         \<and> (\<exists>d. DeduceClientIP t (Some bs) header = Inr d \<and> d \<in> set chain)"
proof -
  from filterOut_Inr [OF assms] obtain T p rest where
    R: "Some (Some bs) # rev (headerToIPs header) = T @ p # rest"
    and c: "chain = T @ (if parseable p then [p] else [])"
    by blast
  have 1: "chain \<noteq> [] \<and> hd chain = Some (Some bs)"
  proof (cases T)
    case Nil
    with R have "p = Some (Some bs)" by simp
    then show ?thesis unfolding c Nil by (simp add: parseable_def)
  next
    case (Cons x T')
    with R have "x = Some (Some bs)" by simp
    then show ?thesis unfolding c Cons by simp
  qed
  then have "index chain (int (length chain) - 1) = Inr (last chain)"
    by (simp add: index_last)
  then have "DeduceClientIP t (Some bs) header = Inr (last chain)"
    by (simp add: DeduceClientIP_def assms)
  moreover have "last chain \<in> set chain"
    using 1 by simp
  ultimately show ?thesis using 1 by blast
qed

theorem C9_deduced_in_chain_witness:
  "filterOutIPsFromUntrustedSources store_10_20 (Some addr_10) ''40.40.40.40, 30.30.30.30, 20.20.20.20''
     = Inr [Some (Some addr_10), Some (Some addr_20), Some (Some addr_30)]
   \<and> [Some (Some addr_10), Some (Some addr_20), Some (Some addr_30)] \<noteq> []
   \<and> hd [Some (Some addr_10), Some (Some addr_20), Some (Some addr_30)] = Some (Some addr_10)
   \<and> (\<exists>d. DeduceClientIP store_10_20 (Some addr_10) ''40.40.40.40, 30.30.30.30, 20.20.20.20'' = Inr d
          \<and> d \<in> set [Some (Some addr_10), Some (Some addr_20), Some (Some addr_30)])"
proof -
  have h: "filterOutIPsFromUntrustedSources store_10_20 (Some addr_10) ''40.40.40.40, 30.30.30.30, 20.20.20.20''
     = Inr [Some (Some addr_10), Some (Some addr_20), Some (Some addr_30)]"
    by code_simp
  from h C9_deduced_in_chain [OF h]
  show ?thesis by blast
qed

section \<open>C10: the shape of the returned chain\<close>

text \<open>
  C10. For every trust store, peer and header for which \<open>DeduceClientIP\<close> returns:
  \<open>filterOutIPsFromUntrustedSources\<close> returns a chain that is not empty and starts with
  the peer, the chain is the reverse of a suffix of the header's entries followed by the
  peer (so it runs from the peer backwards), every element of it but the last is trusted,
  and the deduced client is its last element.
\<close>

theorem C10_chain_shape:
  assumes "DeduceClientIP t remoteAddr header = Inr d"
  shows "\<exists>chain. filterOutIPsFromUntrustedSources t remoteAddr header = Inr chain
           \<and> chain \<noteq> [] \<and> hd chain = Some remoteAddr
           \<and> (\<exists>k. chain = rev (drop k (headerToIPs header @ [Some remoteAddr])))
           \<and> list_all (trusted t) (butlast chain)
           \<and> d = last chain"
proof -
  let ?C = "headerToIPs header @ [Some remoteAddr]"
  from assms obtain chain where
    f: "filterOutIPsFromUntrustedSources t remoteAddr header = Inr chain"
    and i: "index chain (int (length chain) - 1) = Inr d"
    by (auto simp: DeduceClientIP_def split: sum.splits)
  from i have ne: "chain \<noteq> []"
    by (auto simp: index_def)
  with i have d: "d = last chain"
    by (simp add: index_last)
  from filterOut_Inr [OF f] obtain T p rest where
    R: "Some remoteAddr # rev (headerToIPs header) = T @ p # rest"
    and T: "\<forall>x \<in> set T. trusted t x"
    and c: "chain = T @ (if parseable p then [p] else [])"
    by blast
  have RC: "rev ?C = T @ p # rest"
    using R by simp
  have hd: "hd chain = Some remoteAddr"
  proof (cases T)
    case Nil
    with R have "p = Some remoteAddr" by simp
    with ne show ?thesis unfolding c Nil by (simp split: if_splits)
  next
    case (Cons x T')
    with R have "x = Some remoteAddr" by simp
    then show ?thesis unfolding c Cons by simp
  qed
  have pre: "chain = take (length chain) (rev ?C)"
    unfolding RC c by simp
  have "take (length chain) (rev ?C) = rev (drop (length ?C - length chain) ?C)"
    by (simp only: take_rev)
  with pre have suf: "\<exists>k. chain = rev (drop k ?C)" by metis
  have "set (butlast chain) \<subseteq> set T"
    unfolding c by (auto dest: in_set_butlastD)
  with T have tr: "list_all (trusted t) (butlast chain)"
    by (auto simp: list_all_iff)
  from f ne hd suf tr d show ?thesis by blast
qed

theorem C10_chain_shape_witness:
  "DeduceClientIP store_10_20 (ParseIP ''10.10.10.10'') ''40.40.40.40, 30.30.30.30, 20.20.20.20'' = Inr (Some (Some addr_30))
   \<and> (\<exists>chain. filterOutIPsFromUntrustedSources store_10_20 (ParseIP ''10.10.10.10'') ''40.40.40.40, 30.30.30.30, 20.20.20.20'' = Inr chain
           \<and> chain \<noteq> [] \<and> hd chain = Some (ParseIP ''10.10.10.10'')
           \<and> (\<exists>k. chain = rev (drop k (headerToIPs ''40.40.40.40, 30.30.30.30, 20.20.20.20'' @ [Some (ParseIP ''10.10.10.10'')])))
           \<and> list_all (trusted store_10_20) (butlast chain)
           \<and> Some (Some addr_30) = last chain)"
proof -
  have h: "DeduceClientIP store_10_20 (ParseIP ''10.10.10.10'') ''40.40.40.40, 30.30.30.30, 20.20.20.20'' = Inr (Some (Some addr_30))"
    by code_simp
  from h C10_chain_shape [OF h]
  show ?thesis by blast
qed

section \<open>The trust store\<close>

text \<open>\<open>IsIPTrusted\<close> returns the first network of the list that contains the address.\<close>

lemma IsIPTrusted_loop_find: "IsIPTrusted_loop ns a = List.find (\<lambda>n. Contains n a) ns"
  by (induction ns) simp_all

lemma IsIPTrusted_Some_iff:
  "IsIPTrusted t a = Some n \<longleftrightarrow>
     (\<exists>i < length (trustedCIDRs t). trustedCIDRs t ! i = n \<and> Contains n a
         \<and> (\<forall>j < i. \<not> Contains (trustedCIDRs t ! j) a))"
  unfolding IsIPTrusted_def IsIPTrusted_loop_find find_Some_iff by blast

lemma IsIPTrusted_None_iff:
  "IsIPTrusted t a = None \<longleftrightarrow> (\<forall>n \<in> set (trustedCIDRs t). \<not> Contains n a)"
  unfolding IsIPTrusted_def IsIPTrusted_loop_find find_None_iff by blast

lemma AddFromString_Inr:
  "netFromIPOrCIDR s = Inr ipnet \<Longrightarrow>
     AddFromString t s = (None, t\<lparr>trustedCIDRs := trustedCIDRs t @ [ipnet]\<rparr>)"
  by (simp add: AddFromString_def)

lemma AddFromString_Inl:
  "netFromIPOrCIDR s = Inl err \<Longrightarrow> AddFromString t s = (None, t)"
  by (simp add: AddFromString_def)

lemma trustedCIDRs_AddFromString:
  "trustedCIDRs (snd (AddFromString t s)) = trustedCIDRs t @ added [s]"
  by (cases "netFromIPOrCIDR s") (simp_all add: AddFromString_def added_def)

lemma added_append: "added (xs @ ys) = added xs @ added ys"
  by (simp add: added_def)

lemma trustedCIDRs_AddAll:
  "trustedCIDRs (AddAll t specs) = trustedCIDRs t @ added specs"
proof (induction specs arbitrary: t)
  case Nil
  show ?case by (simp add: AddAll_def added_def)
next
  case (Cons s specs)
  have "AddAll t (s # specs) = AddAll (snd (AddFromString t s)) specs"
    by (simp add: AddAll_def)
  then show ?case
    using added_append [of "[s]" specs] by (simp add: Cons.IH trustedCIDRs_AddFromString)
qed

lemma set_added: "set (added specs) = {R. \<exists>s \<in> set specs. netFromIPOrCIDR s = Inr R}"
  by (auto simp: added_def split: sum.splits)

section \<open>C5: membership after adding\<close>

text \<open>
  C5. After \<open>AddFromString\<close> of a specification that stands for a network \<open>R\<close>,
  \<open>IsIPTrusted\<close> of an address that \<open>R\<close> contains returns a network that contains the
  address. The store built from a list of specifications holds the networks they stand
  for, in the order of the calls; for an address that none of them contains
  \<open>IsIPTrusted\<close> returns nil; and a network that \<open>IsIPTrusted\<close> returns is the first one,
  in the order of addition, that contains the address.
\<close>

theorem C5_IsIPTrusted_after_AddFromString:
  "(netFromIPOrCIDR S = Inr R \<and> Contains R A
      \<longrightarrow> (\<exists>n. IsIPTrusted (snd (AddFromString t S)) A = Some n \<and> Contains n A))
   \<and> trustedCIDRs (AddAll New specs) = added specs
   \<and> ((\<forall>s \<in> set specs. \<forall>R'. netFromIPOrCIDR s = Inr R' \<longrightarrow> \<not> Contains R' A)
      \<longrightarrow> IsIPTrusted (AddAll New specs) A = None)
   \<and> (IsIPTrusted (AddAll New specs) A = Some n
      \<longrightarrow> (\<exists>i < length (added specs). added specs ! i = n \<and> Contains n A
              \<and> (\<forall>j < i. \<not> Contains (added specs ! j) A)))"
proof (intro conjI impI)
  assume a: "netFromIPOrCIDR S = Inr R \<and> Contains R A"
  then have "R \<in> set (trustedCIDRs (snd (AddFromString t S)))"
    by (simp add: AddFromString_Inr)
  with a have "IsIPTrusted (snd (AddFromString t S)) A \<noteq> None"
    unfolding IsIPTrusted_None_iff by blast
  then obtain n where n: "IsIPTrusted (snd (AddFromString t S)) A = Some n"
    by blast
  then have "Contains n A"
    unfolding IsIPTrusted_Some_iff by blast
  with n show "\<exists>n. IsIPTrusted (snd (AddFromString t S)) A = Some n \<and> Contains n A"
    by blast
next
  show tc: "trustedCIDRs (AddAll New specs) = added specs"
    by (simp add: trustedCIDRs_AddAll New_def)
  {
    assume "\<forall>s \<in> set specs. \<forall>R'. netFromIPOrCIDR s = Inr R' \<longrightarrow> \<not> Contains R' A"
    then show "IsIPTrusted (AddAll New specs) A = None"
      unfolding IsIPTrusted_None_iff tc set_added by blast
  }
  {
    assume "IsIPTrusted (AddAll New specs) A = Some n"
    then show "\<exists>i < length (added specs). added specs ! i = n \<and> Contains n A
              \<and> (\<forall>j < i. \<not> Contains (added specs ! j) A)"
      unfolding IsIPTrusted_Some_iff tc .
  }
qed

theorem C5_IsIPTrusted_after_AddFromString_witness:
  "netFromIPOrCIDR ''192.168.10.10/24'' = Inr net_192_168_10_24
   \<and> Contains net_192_168_10_24 (ParseIP ''192.168.10.2'')
   \<and> (\<exists>n. IsIPTrusted (snd (AddFromString New ''192.168.10.10/24'')) (ParseIP ''192.168.10.2'') = Some n
          \<and> Contains n (ParseIP ''192.168.10.2''))
   \<and> trustedCIDRs (AddAll New [''192.168.10.10/24'', ''this is not valid'', ''192.168.0.0/16''])
       = [net_192_168_10_24, net_192_168_16]
   \<and> \<not> Contains net_192_168_10_24 (ParseIP ''192.169.1.1'') \<and> \<not> Contains net_192_168_16 (ParseIP ''192.169.1.1'')
   \<and> IsIPTrusted (AddAll New [''192.168.10.10/24'', ''this is not valid'', ''192.168.0.0/16''])
         (ParseIP ''192.169.1.1'') = None
   \<and> IsIPTrusted (AddAll New [''192.168.10.10/24'', ''this is not valid'', ''192.168.0.0/16''])
         (ParseIP ''192.168.10.2'') = Some net_192_168_10_24
   \<and> (\<exists>i < length [net_192_168_10_24, net_192_168_16]. [net_192_168_10_24, net_192_168_16] ! i = net_192_168_10_24 \<and> Contains net_192_168_10_24 (ParseIP ''192.168.10.2'')
          \<and> (\<forall>j < i. \<not> Contains ([net_192_168_10_24, net_192_168_16] ! j) (ParseIP ''192.168.10.2'')))"
proof -
  let ?specs = "[''192.168.10.10/24'', ''this is not valid'', ''192.168.0.0/16'']"
  have a: "added ?specs = [net_192_168_10_24, net_192_168_16]"
    by code_simp
  have h1: "netFromIPOrCIDR ''192.168.10.10/24'' = Inr net_192_168_10_24"
    by code_simp
  have h1': "netFromIPOrCIDR ''this is not valid'' = Inl (ErrInvalidIPSpecification ''this is not valid'')"
    by code_simp
  have h1'': "netFromIPOrCIDR ''192.168.0.0/16'' = Inr net_192_168_16"
    by code_simp
  have h2: "Contains net_192_168_10_24 (ParseIP ''192.168.10.2'')"
    by code_simp
  have h3: "\<not> Contains net_192_168_10_24 (ParseIP ''192.169.1.1'')" "\<not> Contains net_192_168_16 (ParseIP ''192.169.1.1'')"
    by code_simp+
  have h4: "IsIPTrusted (AddAll New ?specs) (ParseIP ''192.168.10.2'') = Some net_192_168_10_24"
    by code_simp
  have h5: "\<forall>s \<in> set ?specs. \<forall>R'. netFromIPOrCIDR s = Inr R' \<longrightarrow> \<not> Contains R' (ParseIP ''192.169.1.1'')"
    using h1 h1' h1'' h3 by simp
  note i1 = C5_IsIPTrusted_after_AddFromString
    [where S = "''192.168.10.10/24''" and R = "net_192_168_10_24" and A = "ParseIP ''192.168.10.2''"
       and t = New and specs = ?specs and n = "net_192_168_10_24"]
  note i2 = C5_IsIPTrusted_after_AddFromString
    [where S = "''192.168.10.10/24''" and R = "net_192_168_10_24" and A = "ParseIP ''192.169.1.1''"
       and t = New and specs = ?specs and n = "net_192_168_10_24"]
  from i1 h1 h2
  have c1: "\<exists>n. IsIPTrusted (snd (AddFromString New ''192.168.10.10/24'')) (ParseIP ''192.168.10.2'') = Some n
          \<and> Contains n (ParseIP ''192.168.10.2'')"
    by blast
  from i1 a have c2: "trustedCIDRs (AddAll New ?specs) = [net_192_168_10_24, net_192_168_16]"
    by simp
  from i2 h5 have c3: "IsIPTrusted (AddAll New ?specs) (ParseIP ''192.169.1.1'') = None"
    by blast
  from i1 h4 have c4: "\<exists>i < length [net_192_168_10_24, net_192_168_16]. [net_192_168_10_24, net_192_168_16] ! i = net_192_168_10_24 \<and> Contains net_192_168_10_24 (ParseIP ''192.168.10.2'')
          \<and> (\<forall>j < i. \<not> Contains ([net_192_168_10_24, net_192_168_16] ! j) (ParseIP ''192.168.10.2''))"
    unfolding a by blast
  from h1 h2 c1 c2 h3 c3 h4 c4 show ?thesis
    by blast
qed

section \<open>Address families\<close>

text \<open>\<open>Contains\<close> compares an address with a network only when, after \<open>To4\<close>, both have
  the same length: 4 bytes for IPv4 (the mapped form included), 16 bytes for IPv6.\<close>

lemma To4_length: "To4 ip = Some x \<Longrightarrow> length x = 4"
  by (auto simp: To4_def IPv4len_def IPv6len_def split: option.splits if_splits)

lemma networkNumber_cases:
  assumes "networkNumberAndMask n = (nn, m)"
  shows "nn = None
         \<or> (To4 (IP n) \<noteq> None \<and> nn = To4 (IP n))
         \<or> (To4 (IP n) = None \<and> len (IP n) = IPv6len \<and> nn = IP n)"
  using assms
  by (auto simp: networkNumberAndMask_def Let_def split: if_splits)

lemma Contains_len:
  assumes "Contains n a" and "networkNumberAndMask n = (nn, m)"
  shows "len (if To4 a \<noteq> None then To4 a else a) = len nn"
  using assms by (auto simp: Contains_def Let_def split: if_splits)

lemma Contains_IPv4:
  assumes "Contains n a" and "is_IPv4 a"
  shows "is_IPv4 (IP n)"
proof -
  obtain nn m where nm: "networkNumberAndMask n = (nn, m)"
    by (cases "networkNumberAndMask n")
  from assms(2) obtain x where x: "To4 a = Some x"
    by (auto simp: is_IPv4_def)
  with Contains_len [OF assms(1) nm] have "len nn = 4"
    by (simp add: len_def To4_length)
  with networkNumber_cases [OF nm] show ?thesis
    by (auto simp: is_IPv4_def len_def IPv6len_def)
qed

lemma Contains_IPv6:
  assumes "Contains n a" and "is_IPv6 a"
  shows "is_IPv6 (IP n)"
proof -
  obtain nn m where nm: "networkNumberAndMask n = (nn, m)"
    by (cases "networkNumberAndMask n")
  from assms(2) Contains_len [OF assms(1) nm] have l: "len nn = 16"
    by (simp add: is_IPv6_def IPv6len_def)
  from networkNumber_cases [OF nm] show ?thesis
  proof (elim disjE conjE)
    assume "nn = None"
    with l show ?thesis by (simp add: len_def)
  next
    assume "To4 (IP n) \<noteq> None" and nn: "nn = To4 (IP n)"
    then obtain y where y: "To4 (IP n) = Some y" by blast
    then have "length y = 4" by (rule To4_length)
    with l nn y show ?thesis by (simp add: len_def)
  next
    assume "To4 (IP n) = None" "len (IP n) = IPv6len" "nn = IP n"
    then show ?thesis by (simp add: is_IPv6_def)
  qed
qed

lemma To4_idem: "To4 a = Some x \<Longrightarrow> To4 (Some x) = Some x"
  by (frule To4_length) (simp add: To4_def IPv4len_def)

lemma Contains_To4: "is_IPv4 a \<Longrightarrow> Contains n a = Contains n (To4 a)"
  by (auto simp: is_IPv4_def Contains_def Let_def To4_idem split: prod.splits)

section \<open>C6: no match across address families\<close>

text \<open>
  C6. No address is both IPv4 and IPv6. An IPv4 address (also one given in the
  IPv4-mapped form) is never contained in an IPv6 network, and an IPv6 address never in
  an IPv4 network, so a network that \<open>IsIPTrusted\<close> returns has the family of the
  address. The query is normalised: for an IPv4 address \<open>Contains\<close> decides as for its
  4-byte form. So is the storage of a single address: an IPv4 address given without a
  prefix length is stored in its 4-byte form with a 4-byte mask.
\<close>

theorem C6_no_match_across_families:
  "\<not> (is_IPv4 a \<and> is_IPv6 a)
   \<and> (is_IPv4 a \<and> is_IPv6 (IP n) \<longrightarrow> \<not> Contains n a)
   \<and> (is_IPv6 a \<and> is_IPv4 (IP n) \<longrightarrow> \<not> Contains n a)
   \<and> (IsIPTrusted t a = Some n \<longrightarrow> (is_IPv4 a \<longrightarrow> is_IPv4 (IP n)) \<and> (is_IPv6 a \<longrightarrow> is_IPv6 (IP n)))
   \<and> (is_IPv4 a \<longrightarrow> Contains n a = Contains n (To4 a))
   \<and> (ParseCIDR s = None \<and> is_IPv4 (ParseIP s)
        \<longrightarrow> netFromIPOrCIDR s
              = Inr \<lparr>IP = To4 (ParseIP s), Mask = CIDRMask 32 32\<rparr>)"
proof (intro conjI impI)
  show "\<not> (is_IPv4 a \<and> is_IPv6 a)"
    by (auto simp: is_IPv4_def is_IPv6_def)
  have ex: "\<not> (is_IPv4 x \<and> is_IPv6 x)" for x
    by (auto simp: is_IPv4_def is_IPv6_def)
  {
    assume "is_IPv4 a \<and> is_IPv6 (IP n)"
    then show "\<not> Contains n a"
      using Contains_IPv4 [of n a] ex [of "IP n"] by blast
  }
  {
    assume "is_IPv6 a \<and> is_IPv4 (IP n)"
    then show "\<not> Contains n a"
      using Contains_IPv6 [of n a] ex [of "IP n"] by blast
  }
  {
    assume "IsIPTrusted t a = Some n"
    then have c: "Contains n a"
      unfolding IsIPTrusted_Some_iff by blast
    { assume "is_IPv4 a" with c show "is_IPv4 (IP n)" by (rule Contains_IPv4) }
    { assume "is_IPv6 a" with c show "is_IPv6 (IP n)" by (rule Contains_IPv6) }
  }
  {
    assume "is_IPv4 a"
    then show "Contains n a = Contains n (To4 a)" by (rule Contains_To4)
  }
  {
    assume a: "ParseCIDR s = None \<and> is_IPv4 (ParseIP s)"
    then obtain x where x: "To4 (ParseIP s) = Some x"
      by (auto simp: is_IPv4_def)
    then have "ParseIP s \<noteq> None"
      by (auto simp: To4_def split: option.splits)
    with a x show "netFromIPOrCIDR s = Inr \<lparr>IP = To4 (ParseIP s), Mask = CIDRMask 32 32\<rparr>"
      by (simp add: netFromIPOrCIDR_def Let_def len_def To4_length)
  }
qed

theorem C6_no_match_across_families_witness:
  "ParseIP ''::ffff:10.10.10.10'' = Some addr_10
   \<and> is_IPv4 (Some addr_10) \<and> \<not> is_IPv6 (Some addr_10)
   \<and> netFromIPOrCIDR ''::/0'' = Inr net_v6_all \<and> is_IPv6 (IP net_v6_all)
   \<and> \<not> Contains net_v6_all (Some addr_10)
   \<and> ParseIP ''2001:db8::1'' = Some addr_2001_db8_1 \<and> is_IPv6 (Some addr_2001_db8_1)
   \<and> netFromIPOrCIDR ''0.0.0.0/0'' = Inr net_v4_all \<and> is_IPv4 (IP net_v4_all)
   \<and> \<not> Contains net_v4_all (Some addr_2001_db8_1)
   \<and> IsIPTrusted (AddAll New [''::/0'', ''10.0.0.0/8'']) (Some addr_10) = Some net_10_8
   \<and> is_IPv4 (IP net_10_8)
   \<and> IsIPTrusted (AddAll New [''0.0.0.0/0'', ''2001:db8::/32'']) (Some addr_2001_db8_1) = Some net_2001_db8_32
   \<and> is_IPv6 (IP net_2001_db8_32)
   \<and> Contains net_10_8 (Some addr_10) = Contains net_10_8 (To4 (Some addr_10))
   \<and> ParseCIDR ''::ffff:10.10.10.10'' = None
   \<and> netFromIPOrCIDR ''::ffff:10.10.10.10''
       = Inr \<lparr>IP = Some [10, 10, 10, 10], Mask = Some [0xff, 0xff, 0xff, 0xff]\<rparr>"
proof -
  have p1: "ParseIP ''::ffff:10.10.10.10'' = Some addr_10" by code_simp
  have p2: "is_IPv4 (Some addr_10)" by code_simp
  have p3: "netFromIPOrCIDR ''::/0'' = Inr net_v6_all" by code_simp
  have p4: "is_IPv6 (IP net_v6_all)" by code_simp
  have p5: "ParseIP ''2001:db8::1'' = Some addr_2001_db8_1" by code_simp
  have p6: "is_IPv6 (Some addr_2001_db8_1)" by code_simp
  have p7: "netFromIPOrCIDR ''0.0.0.0/0'' = Inr net_v4_all" by code_simp
  have p8: "is_IPv4 (IP net_v4_all)" by code_simp
  have p9: "IsIPTrusted (AddAll New [''::/0'', ''10.0.0.0/8'']) (Some addr_10) = Some net_10_8"
    by code_simp
  have p10: "IsIPTrusted (AddAll New [''0.0.0.0/0'', ''2001:db8::/32'']) (Some addr_2001_db8_1) = Some net_2001_db8_32"
    by code_simp
  have p11: "ParseCIDR ''::ffff:10.10.10.10'' = None" by code_simp
  have p12: "To4 (Some addr_10) = Some [10, 10, 10, 10]" by code_simp
  have p13: "CIDRMask 32 32 = Some [0xff, 0xff, 0xff, 0xff]" by code_simp
  note i1 = C6_no_match_across_families
    [where a = "Some addr_10" and n = "net_v6_all" and t = "AddAll New [''::/0'', ''10.0.0.0/8'']"
       and s = "''::ffff:10.10.10.10''"]
  note i2 = C6_no_match_across_families
    [where a = "Some addr_2001_db8_1" and n = "net_v4_all" and t = "AddAll New [''0.0.0.0/0'', ''2001:db8::/32'']"
       and s = "''::ffff:10.10.10.10''"]
  note i3 = C6_no_match_across_families
    [where a = "Some addr_10" and n = "net_10_8" and t = "AddAll New [''::/0'', ''10.0.0.0/8'']"
       and s = "''::ffff:10.10.10.10''"]
  note i4 = C6_no_match_across_families
    [where a = "Some addr_2001_db8_1" and n = "net_2001_db8_32" and t = "AddAll New [''0.0.0.0/0'', ''2001:db8::/32'']"
       and s = "''::ffff:10.10.10.10''"]
  from i1 p2 have c1: "\<not> is_IPv6 (Some addr_10)" by blast
  from i1 p2 p4 have c2: "\<not> Contains net_v6_all (Some addr_10)" by blast
  from i2 p6 p8 have c3: "\<not> Contains net_v4_all (Some addr_2001_db8_1)" by blast
  from i3 p9 p2 have c4: "is_IPv4 (IP net_10_8)" by blast
  from i4 p10 p6 have c5: "is_IPv6 (IP net_2001_db8_32)" by blast
  from i3 p2 have c6: "Contains net_10_8 (Some addr_10) = Contains net_10_8 (To4 (Some addr_10))" by blast
  from i1 p11 p2 have "netFromIPOrCIDR ''::ffff:10.10.10.10''
       = Inr \<lparr>IP = To4 (ParseIP ''::ffff:10.10.10.10''), Mask = CIDRMask 32 32\<rparr>"
    unfolding p1 by blast
  then have c7: "netFromIPOrCIDR ''::ffff:10.10.10.10''
       = Inr \<lparr>IP = Some [10, 10, 10, 10], Mask = Some [0xff, 0xff, 0xff, 0xff]\<rparr>"
    unfolding p1 p12 p13 .
  from p1 p2 c1 p3 p4 c2 p5 p6 p7 p8 c3 p9 c4 p10 c5 c6 p11 c7 show ?thesis
    by blast
qed

text \<open>
  A network given in the IPv4-mapped form with a prefix of 96 bits or more keeps the
  mapped prefix, so it is an IPv4 network in the sense above, as a mapped address is an
  IPv4 address: \<open>::ffff:10.0.0.0/104\<close> is stored in 16 bytes and contains the IPv4
  addresses of \<open>10.0.0.0/8\<close>.
\<close>

lemma mapped_network_is_IPv4:
  "netFromIPOrCIDR ''::ffff:10.0.0.0/104''
     = Inr \<lparr>IP = Some [0, 0, 0, 0, 0, 0, 0, 0, 0, 0, 0xff, 0xff, 10, 0, 0, 0],
            Mask = Some [0xff, 0xff, 0xff, 0xff, 0xff, 0xff, 0xff, 0xff,
                         0xff, 0xff, 0xff, 0xff, 0xff, 0, 0, 0]\<rparr>
   \<and> is_IPv4 (Some [0, 0, 0, 0, 0, 0, 0, 0, 0, 0, 0xff, 0xff, 10, 0, 0, 0])
   \<and> IsIPTrusted (AddAll New [''::ffff:10.0.0.0/104'']) (ParseIP ''10.1.2.3'') \<noteq> None
   \<and> IsIPTrusted (AddAll New [''::ffff:10.0.0.0/104'']) (ParseIP ''::10.1.2.3'') = None"
  by code_simp

section \<open>C8: a specification that does not parse\<close>

text \<open>
  C8. For a text that is neither a CIDR specification nor an address, \<open>AddFromString\<close>
  returns no error and leaves the store as it was: the list of networks is unchanged,
  and so is the answer of every later \<open>IsIPTrusted\<close>.
\<close>

theorem C8_unparseable_is_noop:
  assumes "ParseCIDR s = None" and "ParseIP s = None"
  shows "AddFromString t s = (None, t)
         \<and> trustedCIDRs (snd (AddFromString t s)) = trustedCIDRs t
         \<and> (\<forall>a. IsIPTrusted (snd (AddFromString t s)) a = IsIPTrusted t a)"
proof -
  from assms have "netFromIPOrCIDR s = Inl (ErrInvalidIPSpecification s)"
    by (simp add: netFromIPOrCIDR_def)
  then have "AddFromString t s = (None, t)"
    by (rule AddFromString_Inl)
  then show ?thesis by simp
qed

theorem C8_unparseable_is_noop_witness:
  "ParseCIDR ''this is not valid'' = None \<and> ParseIP ''this is not valid'' = None
   \<and> AddFromString (AddAll New [''192.168.10.10/24'']) ''this is not valid''
       = (None, AddAll New [''192.168.10.10/24''])
   \<and> trustedCIDRs (snd (AddFromString (AddAll New [''192.168.10.10/24'']) ''this is not valid''))
       = trustedCIDRs (AddAll New [''192.168.10.10/24''])
   \<and> (\<forall>a. IsIPTrusted (snd (AddFromString (AddAll New [''192.168.10.10/24'']) ''this is not valid'')) a
          = IsIPTrusted (AddAll New [''192.168.10.10/24'']) a)"
proof -
  have h1: "ParseCIDR ''this is not valid'' = None"
    by code_simp
  have h2: "ParseIP ''this is not valid'' = None"
    by code_simp
  from h1 h2 C8_unparseable_is_noop [OF h1 h2, of "AddAll New [''192.168.10.10/24'']"]
  show ?thesis by blast
qed

section \<open>Splitting and trimming\<close>

text \<open>\<open>Split\<close> cuts at every separator: joining the pieces with the separator gives the
  text back, no piece holds the separator, and there is one piece more than there are
  separators.\<close>

lemma Split_Cons:
  assumes "dropWhile (\<lambda>x. x \<noteq> sep) s \<noteq> []"
  shows "Split s sep = takeWhile (\<lambda>x. x \<noteq> sep) s # Split (tl (dropWhile (\<lambda>x. x \<noteq> sep) s)) sep"
  by (subst Split.simps) (simp only: Let_def assms if_False)

lemma Split_Nil:
  assumes "dropWhile (\<lambda>x. x \<noteq> sep) s = []"
  shows "Split s sep = [takeWhile (\<lambda>x. x \<noteq> sep) s]"
  by (subst Split.simps) (simp only: Let_def assms if_True simp_thms)

lemma Split_nonempty: "Split s c \<noteq> []"
  by (cases "dropWhile (\<lambda>x. x \<noteq> c) s = []") (simp_all only: Split_Nil Split_Cons list.distinct not_False_eq_True)

lemma Join_Cons: "xs \<noteq> [] \<Longrightarrow> Join (x # xs) c = x @ c # Join xs c"
  by (cases xs) simp_all

lemma dropWhile_sep:
  assumes "dropWhile (\<lambda>x. x \<noteq> c) s \<noteq> []"
  shows "dropWhile (\<lambda>x. x \<noteq> c) s = c # tl (dropWhile (\<lambda>x. x \<noteq> c) s)"
proof -
  from assms have "\<not> hd (dropWhile (\<lambda>x. x \<noteq> c) s) \<noteq> c"
    by (rule hd_dropWhile)
  then have "hd (dropWhile (\<lambda>x. x \<noteq> c) s) = c" by blast
  with assms show ?thesis by (metis list.collapse)
qed

lemma Split_Join: "Join (Split s c) c = s"
proof (induction s c rule: Split.induct)
  case (1 s sep)
  let ?a = "takeWhile (\<lambda>x. x \<noteq> sep) s" and ?rest = "dropWhile (\<lambda>x. x \<noteq> sep) s"
  have s: "?a @ ?rest = s" by (rule takeWhile_dropWhile_id)
  show ?case
  proof (cases "?rest = []")
    case True
    then have "Join (Split s sep) sep = ?a" by (simp only: Split_Nil Join.simps)
    also have "\<dots> = ?a @ ?rest" unfolding True by simp
    finally show ?thesis unfolding s .
  next
    case False
    have IH: "Join (Split (tl ?rest) sep) sep = tl ?rest"
      by (rule 1 [OF refl refl False])
    have "Join (Split s sep) sep = ?a @ sep # tl ?rest"
      by (simp only: Split_Cons [OF False] Join_Cons [OF Split_nonempty] IH)
    also have "\<dots> = ?a @ ?rest"
      using dropWhile_sep [OF False] by (simp only:)
    finally show ?thesis unfolding s .
  qed
qed

lemma Split_no_sep: "seg \<in> set (Split s c) \<Longrightarrow> c \<notin> set seg"
proof (induction s c arbitrary: seg rule: Split.induct)
  case (1 s sep)
  let ?a = "takeWhile (\<lambda>x. x \<noteq> sep) s" and ?rest = "dropWhile (\<lambda>x. x \<noteq> sep) s"
  have a: "sep \<notin> set ?a" by (auto dest: set_takeWhileD)
  show ?case
  proof (cases "?rest = []")
    case True
    from 1(2) have "seg = ?a" unfolding Split_Nil [OF True] by simp
    with a show ?thesis by blast
  next
    case False
    from 1(2) have "seg = ?a \<or> seg \<in> set (Split (tl ?rest) sep)"
      unfolding Split_Cons [OF False] by simp
    then show ?thesis
      using a 1(1) [OF refl refl False] by blast
  qed
qed

lemma Split_length: "length (Split s c) = count_list s c + 1"
proof (induction s c rule: Split.induct)
  case (1 s sep)
  let ?a = "takeWhile (\<lambda>x. x \<noteq> sep) s" and ?rest = "dropWhile (\<lambda>x. x \<noteq> sep) s"
  have a: "count_list ?a sep = 0" by (auto simp: count_list_0_iff dest: set_takeWhileD)
  have "count_list (?a @ ?rest) sep = count_list ?a sep + count_list ?rest sep"
    by (rule count_list_append)
  then have s: "count_list s sep = count_list ?rest sep"
    unfolding takeWhile_dropWhile_id a by simp
  show ?case
  proof (cases "?rest = []")
    case True
    have "count_list ?rest sep = 0" unfolding True by simp
    then show ?thesis unfolding Split_Nil [OF True] s by simp
  next
    case False
    have "count_list ?rest sep = count_list (sep # tl ?rest) sep"
      using dropWhile_sep [OF False] by (simp only:)
    then have "count_list ?rest sep = count_list (tl ?rest) sep + 1" by simp
    then show ?thesis
      unfolding Split_Cons [OF False] s using 1 [OF refl refl False] by simp
  qed
qed

lemma Split_single: "c \<notin> set s \<Longrightarrow> Split s c = [s]"
proof -
  assume c: "c \<notin> set s"
  then have d: "dropWhile (\<lambda>x. x \<noteq> c) s = []" by (auto simp: dropWhile_eq_Nil_conv)
  moreover from c have "takeWhile (\<lambda>x. x \<noteq> c) s = s" by (auto simp: takeWhile_eq_all_conv)
  ultimately show ?thesis by (simp only: Split_Nil)
qed

lemma Split_length_1: "length (Split s c) = 1 \<Longrightarrow> Split s c = [s]"
  by (rule Split_single) (simp add: Split_length count_list_0_iff)

text \<open>
  \<open>TrimSpace\<close> removes white space and nothing else: the text is the trimmed text
  between two white-space texts, and the trimmed text neither starts nor ends with a
  white-space code point. A text is trimmed to nothing exactly when it is white space.
  No encoding of a white-space code point starts with another one, so the code point at
  the start of a text is determined.
\<close>

lemma rune_shape:
  "w \<in> set space_runes \<Longrightarrow>
     (hd w \<in> {CHR 0x09, CHR 0x0A, CHR 0x0B, CHR 0x0C, CHR 0x0D, CHR 0x20} \<and> length w = 1)
     \<or> (hd w = CHR 0xC2 \<and> length w = 2)
     \<or> (hd w \<in> {CHR 0xE1, CHR 0xE2, CHR 0xE3} \<and> length w = 3)"
  by (auto simp: space_runes_def asciiSpace_def)

lemma prefix_free:
  assumes "w \<in> set space_runes" and "w' \<in> set space_runes" and "prefix w w'"
  shows "w = w'"
proof -
  from assms(3) obtain zs where zs: "w' = w @ zs" by (auto simp: prefix_def)
  from space_runes_nonempty [OF assms(1)] have "w \<noteq> []" by auto
  with zs have hd: "hd w' = hd w" by simp
  from rune_shape [OF assms(1)] rune_shape [OF assms(2)] have "length w = length w'"
    unfolding hd by auto
  with zs show ?thesis by simp
qed

lemma comma_not_space: "w \<in> set space_runes \<Longrightarrow> CHR '','' \<notin> set w"
  by (auto simp: space_runes_def asciiSpace_def)

lemma leading_space_None_iff:
  "leading_space s = None \<longleftrightarrow> (\<forall>w \<in> set space_runes. \<not> prefix w s)"
  by (auto simp: leading_space_def find_None_iff)

lemma trailing_space_None_iff:
  "trailing_space s = None \<longleftrightarrow> (\<forall>w \<in> set space_runes. \<not> suffix w s)"
  by (auto simp: trailing_space_def find_None_iff)

lemma leading_space_rune:
  assumes "w \<in> set space_runes"
  shows "leading_space (w @ s) = Some w"
proof -
  have "prefix w (w @ s)" by (rule prefixI) (rule refl)
  with assms have "leading_space (w @ s) \<noteq> None"
    unfolding leading_space_None_iff by blast
  then obtain w' where w': "leading_space (w @ s) = Some w'" by blast
  then have "w' \<in> set space_runes" and "prefix w' (w @ s)"
    by (simp_all add: leading_space_Some)
  then have "prefix w w' \<or> prefix w' w"
    using prefix_same_cases [of w "w @ s" w'] by auto
  with assms \<open>w' \<in> set space_runes\<close> have "w' = w"
    using prefix_free by blast
  with w' show ?thesis by simp
qed

lemma TrimLeft_None: "leading_space s = None \<Longrightarrow> TrimLeft s = s"
  by (subst TrimLeft.simps) simp

lemma TrimLeft_Some: "leading_space s = Some w \<Longrightarrow> TrimLeft s = TrimLeft (drop (length w) s)"
  by (subst TrimLeft.simps) simp

lemma TrimRight_None: "trailing_space s = None \<Longrightarrow> TrimRight s = s"
  by (subst TrimRight.simps) simp

lemma TrimRight_Some:
  "trailing_space s = Some w \<Longrightarrow> TrimRight s = TrimRight (take (length s - length w) s)"
  by (subst TrimRight.simps) simp

lemma white_space_rune: "w \<in> set space_runes \<Longrightarrow> white_space w"
  using ws_Cons [OF _ ws_Nil, of w] by simp

lemma white_space_append: "white_space a \<Longrightarrow> white_space b \<Longrightarrow> white_space (a @ b)"
proof (induction a rule: white_space.induct)
  case ws_Nil
  then show ?case by simp
next
  case (ws_Cons w s)
  then have "white_space (w @ (s @ b))" by (blast intro: white_space.ws_Cons)
  then show ?case by simp
qed

lemma white_space_no_comma: "white_space s \<Longrightarrow> CHR '','' \<notin> set s"
  by (induction s rule: white_space.induct) (auto dest: comma_not_space)

lemma white_space_TrimLeft: "white_space s \<Longrightarrow> TrimLeft s = []"
proof (induction s rule: white_space.induct)
  case ws_Nil
  have "leading_space [] = None"
    unfolding leading_space_None_iff using space_runes_nonempty by fastforce
  then show ?case by (simp add: TrimLeft_None)
next
  case (ws_Cons w s)
  have "TrimLeft (w @ s) = TrimLeft (drop (length w) (w @ s))"
    by (rule TrimLeft_Some) (rule leading_space_rune [OF ws_Cons.hyps(1)])
  with ws_Cons.IH show ?case by simp
qed

lemma TrimLeft_decomp:
  "\<exists>l. s = l @ TrimLeft s \<and> white_space l \<and> leading_space (TrimLeft s) = None"
proof (induction s rule: TrimLeft.induct)
  case (1 s)
  show ?case
  proof (cases "leading_space s")
    case None
    then have "s = [] @ TrimLeft s \<and> white_space [] \<and> leading_space (TrimLeft s) = None"
      by (simp add: TrimLeft_None ws_Nil)
    then show ?thesis by blast
  next
    case (Some w)
    then have w: "w \<in> set space_runes" and p: "prefix w s"
      by (simp_all add: leading_space_Some)
    from 1 [OF Some] obtain l where
      l: "drop (length w) s = l @ TrimLeft (drop (length w) s)" and wl: "white_space l"
      and n: "leading_space (TrimLeft (drop (length w) s)) = None"
      by blast
    from p have "s = w @ drop (length w) s"
      by (metis append_eq_conv_conj prefixE)
    with l have "s = (w @ l) @ TrimLeft (drop (length w) s)"
      by (metis append.assoc)
    moreover have "white_space (w @ l)"
      using w wl by (rule ws_Cons)
    ultimately show ?thesis
      using n unfolding TrimLeft_Some [OF Some] by blast
  qed
qed

lemma TrimRight_decomp:
  "\<exists>r. s = TrimRight s @ r \<and> white_space r \<and> trailing_space (TrimRight s) = None"
proof (induction s rule: TrimRight.induct)
  case (1 s)
  show ?case
  proof (cases "trailing_space s")
    case None
    then have "s = TrimRight s @ [] \<and> white_space [] \<and> trailing_space (TrimRight s) = None"
      by (simp add: TrimRight_None ws_Nil)
    then show ?thesis by blast
  next
    case (Some w)
    then have w: "w \<in> set space_runes" and p: "suffix w s"
      by (simp_all add: trailing_space_Some)
    let ?s' = "take (length s - length w) s"
    from 1 [OF Some] obtain r where
      r: "?s' = TrimRight ?s' @ r" and wr: "white_space r"
      and n: "trailing_space (TrimRight ?s') = None"
      by blast
    from p obtain u where u: "s = u @ w" by (auto simp: suffix_def)
    then have "s = ?s' @ w" by simp
    with r have "s = TrimRight ?s' @ (r @ w)"
      by (metis append.assoc)
    moreover have "white_space (r @ w)"
      using wr white_space_rune [OF w] by (rule white_space_append)
    ultimately show ?thesis
      using n unfolding TrimRight_Some [OF Some] by blast
  qed
qed

lemma TrimSpace_decomp:
  "\<exists>l r. s = l @ TrimSpace s @ r \<and> white_space l \<and> white_space r
         \<and> leading_space (TrimSpace s) = None \<and> trailing_space (TrimSpace s) = None"
proof -
  from TrimLeft_decomp [of s] obtain l where
    l: "s = l @ TrimLeft s" and wl: "white_space l" and n: "leading_space (TrimLeft s) = None"
    by blast
  from TrimRight_decomp [of "TrimLeft s"] obtain r where
    r: "TrimLeft s = TrimSpace s @ r" and wr: "white_space r"
    and m: "trailing_space (TrimSpace s) = None"
    unfolding TrimSpace_def by blast
  have "leading_space (TrimSpace s) = None"
    unfolding leading_space_None_iff
  proof
    fix w assume w: "w \<in> set space_runes"
    show "\<not> prefix w (TrimSpace s)"
    proof
      assume "prefix w (TrimSpace s)"
      then have "prefix w (TrimLeft s)"
        using r by (metis prefix_prefix)
      with n w show False
        unfolding leading_space_None_iff by blast
    qed
  qed
  moreover from l r have "s = l @ TrimSpace s @ r" by simp
  ultimately show ?thesis using wl wr m by blast
qed

lemma white_space_iff: "white_space s \<longleftrightarrow> TrimSpace s = []"
proof
  assume "white_space s"
  then have "TrimLeft s = []" by (rule white_space_TrimLeft)
  moreover have "trailing_space [] = None"
    unfolding trailing_space_None_iff using space_runes_nonempty by fastforce
  ultimately show "TrimSpace s = []"
    by (simp add: TrimSpace_def TrimRight_None)
next
  assume e: "TrimSpace s = []"
  from TrimSpace_decomp [of s] obtain l r where
    "s = l @ TrimSpace s @ r" and "white_space l" and "white_space r"
    by blast
  with e show "white_space s"
    by (simp add: white_space_append)
qed

section \<open>C7: parsing the header\<close>

text \<open>
  C7. \<open>headerToIPs\<close> splits the header at the commas, trims the white space around
  each piece and parses the trimmed piece as an address. The empty header, and a header
  that is white space only (a single piece, since a comma is not white space), give the
  empty list. Every other header gives one entry for each piece, in the order of the
  pieces, the entry of an unparseable piece being the nil address. The header
  \<open>10.10.10.10, ugh, 20.20.20.20\<close> gives three entries: an address, the nil address and
  an address.
\<close>

theorem C7_headerToIPs:
  "headerToIPs [] = []
   \<and> (white_space h \<longrightarrow> headerToIPs h = [])
   \<and> (\<not> white_space h
        \<longrightarrow> headerToIPs h = map (\<lambda>seg. Some (ParseIP (TrimSpace seg))) (Split h (CHR '','')))
   \<and> Join (Split h (CHR '','')) (CHR '','') = h
   \<and> (\<forall>seg \<in> set (Split h (CHR '','')). CHR '','' \<notin> set seg)
   \<and> length (Split h (CHR '','')) = count_list h (CHR '','') + 1
   \<and> (\<exists>l r. seg = l @ TrimSpace seg @ r \<and> white_space l \<and> white_space r
          \<and> leading_space (TrimSpace seg) = None \<and> trailing_space (TrimSpace seg) = None)
   \<and> headerToIPs ''10.10.10.10, ugh, 20.20.20.20''
       = [Some (Some addr_10), Some None,
          Some (Some addr_20)]"
proof (intro conjI impI)
  show "headerToIPs [] = []"
    by code_simp
  show "headerToIPs ''10.10.10.10, ugh, 20.20.20.20''
       = [Some (Some addr_10), Some None,
          Some (Some addr_20)]"
    by code_simp
  show "Join (Split h (CHR '','')) (CHR '','') = h"
    by (rule Split_Join)
  show "\<forall>seg \<in> set (Split h (CHR '','')). CHR '','' \<notin> set seg"
    by (blast dest: Split_no_sep)
  show "length (Split h (CHR '','')) = count_list h (CHR '','') + 1"
    by (rule Split_length)
  show "\<exists>l r. seg = l @ TrimSpace seg @ r \<and> white_space l \<and> white_space r
          \<and> leading_space (TrimSpace seg) = None \<and> trailing_space (TrimSpace seg) = None"
    by (rule TrimSpace_decomp)
  {
    assume w: "white_space h"
    then have "Split h (CHR '','') = [h]"
      by (simp add: Split_single white_space_no_comma)
    moreover from w have "TrimSpace h = []"
      by (simp add: white_space_iff)
    ultimately show "headerToIPs h = []"
      by (simp add: headerToIPs_def)
  }
  {
    assume w: "\<not> white_space h"
    have "\<not> (length (Split h (CHR '','')) = 1 \<and> TrimSpace (Split h (CHR '','') ! 0) = [])"
    proof
      assume a: "length (Split h (CHR '','')) = 1 \<and> TrimSpace (Split h (CHR '','') ! 0) = []"
      then have "Split h (CHR '','') = [h]" by (simp add: Split_length_1)
      with a have "TrimSpace h = []" by simp
      with w show False by (simp add: white_space_iff)
    qed
    then show "headerToIPs h = map (\<lambda>seg. Some (ParseIP (TrimSpace seg))) (Split h (CHR '',''))"
      unfolding headerToIPs_def Let_def by (simp only: if_False)
  }
qed

theorem C7_headerToIPs_witness:
  "white_space ''  '' \<and> headerToIPs ''  '' = []
   \<and> \<not> white_space '', '' \<and> headerToIPs '', '' = [Some None, Some None]
   \<and> Split ''10.10.10.10, ugh, 20.20.20.20'' (CHR '','')
       = [''10.10.10.10'', '' ugh'', '' 20.20.20.20'']
   \<and> TrimSpace '' ugh'' = ''ugh''
   \<and> headerToIPs ''10.10.10.10, ugh, 20.20.20.20''
       = [Some (Some addr_10), Some None,
          Some (Some addr_20)]"
proof -
  have "TrimSpace ''  '' = []" by code_simp
  then have h1: "white_space ''  ''" by (simp only: white_space_iff)
  have "TrimSpace '', '' \<noteq> []" by code_simp
  then have h2: "\<not> white_space '', ''" by (simp only: white_space_iff not_False_eq_True)
  have e: "map (\<lambda>seg. Some (ParseIP (TrimSpace seg))) (Split '', '' (CHR '','')) = [Some None, Some None]"
    by code_simp
  have s: "Split ''10.10.10.10, ugh, 20.20.20.20'' (CHR '','')
       = [''10.10.10.10'', '' ugh'', '' 20.20.20.20'']"
    by code_simp
  have t: "TrimSpace '' ugh'' = ''ugh''"
    by code_simp
  from h1 C7_headerToIPs [of "''  ''"] have c1: "headerToIPs ''  '' = []"
    by blast
  from h2 C7_headerToIPs [of "'', ''"] have c2: "headerToIPs '', '' = [Some None, Some None]"
    unfolding e by blast
  from C7_headerToIPs [of "''  ''"] have c3: "headerToIPs ''10.10.10.10, ugh, 20.20.20.20''
       = [Some (Some addr_10), Some None,
          Some (Some addr_20)]"
    by blast
  from h1 c1 h2 c2 s t c3 show ?thesis
    by blast
qed

end
